theory Spec2Isabelle
  imports Complex_Main "HOL-Library.Word"
begin

section \<open>Arrays\<close>

text \<open>
  A two-dimensional numpy array is a list of rows. The entries of every array of the
  class are taken in the complex numbers: an integer array (\<open>Lz\<close>, \<open>SigmaXY\<close>) and a
  float64 array (\<open>Lp\<close>, \<open>Lm\<close>, \<open>Lx\<close>) have entries with imaginary part zero. A float64
  is a real number: rounding is not modelled, so \<open>np.sqrt\<close> is the real square root.
  The range of float64 plays no part in the arrays of the generators, whose entries are
  zero or between \<open>1/2\<close> and \<open>L + 1\<close> in absolute value; it is modelled for the
  operators, where the class divides.
\<close>

type_synonym cmat = "complex list list"

definition mk_mat :: "nat \<Rightarrow> nat \<Rightarrow> (nat \<Rightarrow> nat \<Rightarrow> complex) \<Rightarrow> cmat" where
  "mk_mat r c f = map (\<lambda>i. map (\<lambda>j. f i j) [0..<c]) [0..<r]"

definition ncols :: "cmat \<Rightarrow> nat" where
  "ncols A = (case A of [] \<Rightarrow> 0 | r # _ \<Rightarrow> length r)"

text \<open>\<open>A.shape == (r, c)\<close>\<close>

definition has_shape :: "cmat \<Rightarrow> nat \<Rightarrow> nat \<Rightarrow> bool" where
  "has_shape A r c = (length A = r \<and> list_all (\<lambda>row. length row = c) A)"

text \<open>
  \<open>np.diag(v, k)\<close> of a one-dimensional \<open>v\<close>: the square array of side \<open>len(v) + |k|\<close>
  with \<open>v\<close> on the \<open>k\<close>-th diagonal (above the main one for \<open>k > 0\<close>, below for \<open>k < 0\<close>).
\<close>

definition np_diag :: "complex list \<Rightarrow> int \<Rightarrow> cmat" where
  "np_diag v k = (let n = length v + nat \<bar>k\<bar> in
     mk_mat n n (\<lambda>i j. if int j - int i = k then v ! (if 0 \<le> k then i else j) else 0))"

definition mat_add :: "cmat \<Rightarrow> cmat \<Rightarrow> cmat" where
  "mat_add A B = map2 (map2 (+)) A B"

definition mat_sub :: "cmat \<Rightarrow> cmat \<Rightarrow> cmat" where
  "mat_sub A B = map2 (map2 (-)) A B"

definition mat_scale :: "complex \<Rightarrow> cmat \<Rightarrow> cmat" where
  "mat_scale c A = map (map ((*) c)) A"

text \<open>\<open>A.T\<close> and \<open>np.conj(A)\<close>\<close>

definition mat_T :: "cmat \<Rightarrow> cmat" where
  "mat_T A = mk_mat (ncols A) (length A) (\<lambda>i j. A ! j ! i)"

definition mat_conj :: "cmat \<Rightarrow> cmat" where
  "mat_conj A = map (map cnj) A"

text \<open>\<open>np.dot(A, B)\<close> and \<open>np.einsum("ij,jk,kl->il", A, B, C)\<close>\<close>

definition mat_dot :: "cmat \<Rightarrow> cmat \<Rightarrow> cmat" where
  "mat_dot A B = mk_mat (length A) (ncols B) (\<lambda>i j. \<Sum>k<length B. A ! i ! k * B ! k ! j)"

definition einsum3 :: "cmat \<Rightarrow> cmat \<Rightarrow> cmat \<Rightarrow> cmat" where
  "einsum3 A B C = mk_mat (length A) (ncols C)
     (\<lambda>i l. \<Sum>j<length B. \<Sum>k<length C. A ! i ! j * B ! j ! k * C ! k ! l)"

definition eye :: "nat \<Rightarrow> cmat" where
  "eye d = mk_mat d d (\<lambda>i j. if i = j then 1 else 0)"

section \<open>The generator matrices\<close>

text \<open>
  Lines 30 to 34 and 60 of \<open>SU.__init__\<close>, for an integer \<open>L\<close>, written \<open>l\<close> here;
  \<open>range(a, b)\<close> is the list \<open>[a..b - 1]\<close>.
\<close>

definition Lz_matrix :: "int \<Rightarrow> cmat" where
  "Lz_matrix l = np_diag (map (\<lambda>m. of_int m) [- l..l + 1 - 1]) 0"

definition Lp_matrix :: "int \<Rightarrow> cmat" where
  "Lp_matrix l =
     np_diag (map (\<lambda>m. complex_of_real (sqrt (of_int (l * (l + 1) - m * (m + 1))))) [- l..l - 1]) (- 1)"

definition Lm_matrix :: "int \<Rightarrow> cmat" where
  "Lm_matrix l =
     np_diag (map (\<lambda>m. complex_of_real (sqrt (of_int (l * (l + 1) - m * (m - 1))))) [- l + 1..l + 1 - 1]) 1"

definition Lx_matrix :: "int \<Rightarrow> cmat" where
  "Lx_matrix l = mat_scale (complex_of_real 0.5) (mat_add (Lp_matrix l) (Lm_matrix l))"

definition Ly_matrix :: "int \<Rightarrow> cmat" where
  "Ly_matrix l = mat_scale (- (complex_of_real 0.5 * \<i>)) (mat_sub (Lp_matrix l) (Lm_matrix l))"

definition SigmaXY_matrix :: "int \<Rightarrow> cmat" where
  "SigmaXY_matrix l = np_diag (map (\<lambda>m. (- 1) ^ nat (l + m)) [- l..l + 1 - 1]) 0"

section \<open>Construction of the space\<close>

text \<open>
  The exceptions the class can raise, and the values \<open>L\<close> may be given as: a Python
  \<open>int\<close> or a \<open>float\<close>.
\<close>

datatype exn = AssertionError | TypeError | IndexError | ValueError | LinAlgError

datatype pynum = PyInt int | PyFloat real

fun py_ge0 :: "pynum \<Rightarrow> bool" where
  "py_ge0 (PyInt a) = (0 \<le> a)"
| "py_ge0 (PyFloat x) = (0 \<le> x)"

fun py_neg :: "pynum \<Rightarrow> pynum" where
  "py_neg (PyInt a) = PyInt (- a)"
| "py_neg (PyFloat x) = PyFloat (- x)"

fun py_add1 :: "pynum \<Rightarrow> pynum" where
  "py_add1 (PyInt a) = PyInt (a + 1)"
| "py_add1 (PyFloat x) = PyFloat (x + 1)"

text \<open>\<open>int(L)\<close> truncates a float towards zero.\<close>

fun py_int :: "pynum \<Rightarrow> int" where
  "py_int (PyInt a) = a"
| "py_int (PyFloat x) = (if 0 \<le> x then \<lfloor>x\<rfloor> else \<lceil>x\<rceil>)"

text \<open>\<open>range(a, b)\<close> accepts integers only: a float bound raises \<open>TypeError\<close>.\<close>

fun py_range :: "pynum \<Rightarrow> pynum \<Rightarrow> exn + int list" where
  "py_range (PyInt a) (PyInt b) = Inr [a..b - 1]"
| "py_range (PyInt a) (PyFloat y) = Inl TypeError"
| "py_range (PyFloat x) b = Inl TypeError"

record space =
  L :: int
  Lx :: cmat
  Ly :: cmat
  Lz :: cmat
  SigmaXY :: cmat

text \<open>
  \<open>np.allclose(a, b)\<close> with its default tolerances: \<open>|a - b| <= atol + rtol * |b|\<close>
  for every entry, \<open>rtol = 1e-05\<close>, \<open>atol = 1e-08\<close>.
\<close>

definition isclose :: "complex \<Rightarrow> complex \<Rightarrow> bool" where
  "isclose a b = (cmod (a - b) \<le> 1 / 10 ^ 8 + 1 / 10 ^ 5 * cmod b)"

definition allclose :: "cmat \<Rightarrow> cmat \<Rightarrow> bool" where
  "allclose A B = list_all2 (list_all2 isclose) A B"

definition allclose_vec :: "real list \<Rightarrow> real list \<Rightarrow> bool" where
  "allclose_vec a b = list_all2 (\<lambda>x y. isclose (complex_of_real x) (complex_of_real y)) a b"

text \<open>
  Lines 46 to 57: the check of the three spectra. \<open>eigvalsh\<close> stands for
  \<open>np.linalg.eigvalsh\<close>, a parameter of the model; it returns a real array with one
  entry for each row of its argument, so \<open>np.real\<close> leaves it as it is and \<open>np.imag\<close> of
  it is an array of zeros.
\<close>

definition spectra_checked :: "(cmat \<Rightarrow> real list) \<Rightarrow> int \<Rightarrow> bool" where
  "spectra_checked eigvalsh l =
    (let m_ref = map real_of_int [- l..l + 1 - 1];
         zero = replicate (nat (2 * l + 1)) (0::real);
         mx = eigvalsh (Lx_matrix l);
         mx_re = sort mx;
         my = eigvalsh (Ly_matrix l);
         my_re = sort my;
         mz = eigvalsh (Lz_matrix l);
         mz_re = sort mz
     in (allclose_vec mx_re m_ref \<and> allclose_vec my_re m_ref \<and> allclose_vec mz_re m_ref)
        \<and> (allclose_vec zero (map (\<lambda>x. 0) mx) \<and> allclose_vec zero (map (\<lambda>x. 0) my)
           \<and> allclose_vec zero (map (\<lambda>x. 0) mz)))"

text \<open>
  \<open>SU.__init__\<close>. A failed \<open>assert\<close> is \<open>AssertionError\<close>; the first \<open>range(-L, L + 1)\<close>
  (line 30) is where a float \<open>L\<close> raises.
\<close>

definition SU_init :: "(cmat \<Rightarrow> real list) \<Rightarrow> pynum \<Rightarrow> exn + space" where
  "SU_init eigvalsh Lv =
    (if \<not> py_ge0 Lv then Inl AssertionError
     else case py_range (py_neg Lv) (py_add1 Lv) of
       Inl e \<Rightarrow> Inl e
     | Inr ms \<Rightarrow>
        (let l = py_int Lv;
             d = nat (2 * l + 1);
             Lz' = Lz_matrix l;
             Lx' = Lx_matrix l;
             Ly' = Ly_matrix l
         in if \<not> (has_shape Lx' d d \<and> has_shape Ly' d d \<and> has_shape Lz' d d)
            then Inl AssertionError
            else if \<not> (allclose Lx' (mat_conj (mat_T Lx')) \<and> allclose Ly' (mat_conj (mat_T Ly'))
                        \<and> allclose Lz' (mat_conj (mat_T Lz')))
            then Inl AssertionError
            else if \<not> spectra_checked eigvalsh l then Inl AssertionError
            else Inr \<lparr>L = l, Lx = Lx', Ly = Ly', Lz = Lz', SigmaXY = SigmaXY_matrix l\<rparr>))"

section \<open>Operators\<close>

text \<open>
  A float64 of the operator code is a real number, an infinity or NaN. The range of
  float64 is modelled and the rounding of the significand is not: a result of absolute
  value at most \<open>2^-1075\<close>, half the least positive float64, is zero; a result of
  absolute value at least \<open>2^1024 - 2^970\<close>, half a step above the greatest float64, is
  an infinity; any other result is the real number itself. The sign of a zero is not
  modelled: the class divides by square roots only, so that a zero divisor is \<open>+0\<close>.
\<close>

datatype fl = Finite real | PosInf | NegInf | NotANumber

definition f64_tiny :: real where
  "f64_tiny = 1 / 2 ^ 1075"

definition f64_over :: real where
  "f64_over = 2 ^ 1024 - 2 ^ 970"

definition f64 :: "real \<Rightarrow> fl" where
  "f64 r = (if \<bar>r\<bar> \<le> f64_tiny then Finite 0
     else if f64_over \<le> r then PosInf
     else if r \<le> - f64_over then NegInf
     else Finite r)"

text \<open>
  The arithmetic of numpy on float64. A division by zero and an invalid operation give
  an infinity and NaN, with a warning and no exception. NaN propagates through every
  operation and makes every comparison false.
\<close>

fun fl_neg :: "fl \<Rightarrow> fl" where
  "fl_neg (Finite x) = Finite (- x)"
| "fl_neg PosInf = NegInf"
| "fl_neg NegInf = PosInf"
| "fl_neg NotANumber = NotANumber"

fun fl_add :: "fl \<Rightarrow> fl \<Rightarrow> fl" where
  "fl_add (Finite x) (Finite y) = f64 (x + y)"
| "fl_add NotANumber b = NotANumber"
| "fl_add a NotANumber = NotANumber"
| "fl_add PosInf NegInf = NotANumber"
| "fl_add NegInf PosInf = NotANumber"
| "fl_add PosInf b = PosInf"
| "fl_add a PosInf = PosInf"
| "fl_add NegInf b = NegInf"
| "fl_add a NegInf = NegInf"

definition fl_sub :: "fl \<Rightarrow> fl \<Rightarrow> fl" where
  "fl_sub a b = fl_add a (fl_neg b)"

fun fl_mul :: "fl \<Rightarrow> fl \<Rightarrow> fl" where
  "fl_mul (Finite x) (Finite y) = f64 (x * y)"
| "fl_mul NotANumber b = NotANumber"
| "fl_mul a NotANumber = NotANumber"
| "fl_mul (Finite x) PosInf = (if x = 0 then NotANumber else if 0 < x then PosInf else NegInf)"
| "fl_mul (Finite x) NegInf = (if x = 0 then NotANumber else if 0 < x then NegInf else PosInf)"
| "fl_mul PosInf (Finite y) = (if y = 0 then NotANumber else if 0 < y then PosInf else NegInf)"
| "fl_mul NegInf (Finite y) = (if y = 0 then NotANumber else if 0 < y then NegInf else PosInf)"
| "fl_mul PosInf PosInf = PosInf"
| "fl_mul NegInf NegInf = PosInf"
| "fl_mul PosInf NegInf = NegInf"
| "fl_mul NegInf PosInf = NegInf"

fun fl_div :: "fl \<Rightarrow> fl \<Rightarrow> fl" where
  "fl_div (Finite x) (Finite y) =
     (if y = 0 then (if x = 0 then NotANumber else if 0 < x then PosInf else NegInf)
      else f64 (x / y))"
| "fl_div NotANumber b = NotANumber"
| "fl_div a NotANumber = NotANumber"
| "fl_div (Finite x) b = Finite 0"
| "fl_div PosInf (Finite y) = (if 0 \<le> y then PosInf else NegInf)"
| "fl_div NegInf (Finite y) = (if 0 \<le> y then NegInf else PosInf)"
| "fl_div a b = NotANumber"

fun fl_sqrt :: "fl \<Rightarrow> fl" where
  "fl_sqrt (Finite x) = (if x < 0 then NotANumber else f64 (sqrt x))"
| "fl_sqrt PosInf = PosInf"
| "fl_sqrt NegInf = NotANumber"
| "fl_sqrt NotANumber = NotANumber"

fun fl_lt :: "fl \<Rightarrow> fl \<Rightarrow> bool" where
  "fl_lt (Finite x) (Finite y) = (x < y)"
| "fl_lt NotANumber b = False"
| "fl_lt a NotANumber = False"
| "fl_lt a PosInf = (a \<noteq> PosInf)"
| "fl_lt NegInf (Finite y) = True"
| "fl_lt a b = False"

text \<open>\<open>np.sum(v)\<close>, \<open>np.dot(a, b)\<close> of two vectors and \<open>np.cross(a, b)\<close> of two 3-vectors\<close>

definition fl_sum :: "fl list \<Rightarrow> fl" where
  "fl_sum v = foldl fl_add (Finite 0) v"

definition vdot :: "fl list \<Rightarrow> fl list \<Rightarrow> fl" where
  "vdot a b = fl_sum (map2 fl_mul a b)"

definition np_cross :: "fl list \<Rightarrow> fl list \<Rightarrow> fl list" where
  "np_cross a b =
    [fl_sub (fl_mul (a ! 1) (b ! 2)) (fl_mul (a ! 2) (b ! 1)),
     fl_sub (fl_mul (a ! 2) (b ! 0)) (fl_mul (a ! 0) (b ! 2)),
     fl_sub (fl_mul (a ! 0) (b ! 1)) (fl_mul (a ! 1) (b ! 0))]"

text \<open>
  An array of the operator code is an array of numbers (\<open>Fin\<close>), whose arithmetic is
  that of the complex numbers, or an array that holds NaN.
\<close>

datatype 'a np = Fin 'a | NaN

definition np_dot :: "cmat np \<Rightarrow> cmat np \<Rightarrow> cmat np" where
  "np_dot A B = (case (A, B) of (Fin a, Fin b) \<Rightarrow> Fin (mat_dot a b) | _ \<Rightarrow> NaN)"

definition np_einsum3 :: "cmat np \<Rightarrow> cmat np \<Rightarrow> cmat np \<Rightarrow> cmat np" where
  "np_einsum3 A B C = (case (A, B, C) of (Fin a, Fin b, Fin c) \<Rightarrow> Fin (einsum3 a b c) | _ \<Rightarrow> NaN)"

text \<open>
  \<open>M = ax[0] * self.Lx + ax[1] * self.Ly + ax[2] * self.Lz\<close> (line 89): a component
  that is an infinity or NaN puts NaN into \<open>M\<close>, since each of the three arrays has an
  entry zero and \<open>inf * 0\<close> and \<open>nan * 0\<close> are NaN.
\<close>

definition axis_generator :: "space \<Rightarrow> fl \<Rightarrow> fl \<Rightarrow> fl \<Rightarrow> cmat np" where
  "axis_generator self a0 a1 a2 =
    (case (a0, a1, a2) of
       (Finite x, Finite y, Finite z) \<Rightarrow>
         Fin (mat_add (mat_add (mat_scale (complex_of_real x) (Lx self))
                               (mat_scale (complex_of_real y) (Ly self)))
                      (mat_scale (complex_of_real z) (Lz self)))
     | _ \<Rightarrow> NaN)"

text \<open>
  \<open>SU._rotation\<close>. \<open>eigh\<close> stands for \<open>np.linalg.eigh\<close>, a parameter of the model: given
  an array it raises, or returns the pair of the eigenvalues and of the array whose
  columns are the eigenvectors. What it does on an array that holds NaN is left to the
  parameter (LAPACK builds differ: \<open>LinAlgError\<close>, or arrays of NaN). An angle that is
  an infinity or NaN puts NaN into the phases, and so into the product.
\<close>

type_synonym eigh_fn = "cmat np \<Rightarrow> exn + (real list \<times> cmat) np"

definition rotation :: "eigh_fn \<Rightarrow> space \<Rightarrow> fl \<Rightarrow> fl list \<Rightarrow> exn + cmat np" where
  "rotation eigh self ang ax =
    (case ax of
       a0 # a1 # a2 # rest \<Rightarrow>
         (case eigh (axis_generator self a0 a1 a2) of
            Inl err \<Rightarrow> Inl err
          | Inr NaN \<Rightarrow> Inr NaN
          | Inr (Fin (e, v)) \<Rightarrow>
              (case ang of
                 Finite a \<Rightarrow>
                   Inr (Fin (einsum3 v
                     (np_diag (map (\<lambda>x. exp (- \<i> * complex_of_real a * complex_of_real x)) e) 0)
                     (mat_conj (mat_T v))))
               | _ \<Rightarrow> Inr NaN))
     | _ \<Rightarrow> Inl IndexError)"

text \<open>
  \<open>SU._reflection\<close>: the angle and the axis of lines 98 to 104, then the product of
  line 107, its arguments evaluated from left to right. \<open>ax[2]\<close> raises \<open>IndexError\<close> on
  fewer than three components and \<open>np.dot\<close> raises \<open>ValueError\<close> on more.
\<close>

definition reflection_angle :: "fl list \<Rightarrow> fl" where
  "reflection_angle ax =
    (let ax' = (if fl_lt (ax ! 2) (Finite 0) then map fl_neg ax else ax);
         ax_XY = [Finite 0, Finite 0, Finite 1]
     in fl_div (vdot ax_XY ax') (fl_sqrt (fl_sum (map (\<lambda>x. fl_mul x x) ax'))))"

definition reflection_axis :: "fl list \<Rightarrow> fl list" where
  "reflection_axis ax =
    (let ax' = (if fl_lt (ax ! 2) (Finite 0) then map fl_neg ax else ax);
         ax_XY = [Finite 0, Finite 0, Finite 1];
         rot_ax = np_cross ax_XY ax'
     in map (\<lambda>x. fl_div x (fl_sqrt (vdot rot_ax rot_ax))) rot_ax)"

text \<open>
  Line 107, as a function of the angle and of the axis:
  \<open>_rotation(ang, rot_ax) . SigmaXY . _rotation(-ang, rot_ax)\<close>.
\<close>

definition sigma_conjugated :: "eigh_fn \<Rightarrow> space \<Rightarrow> fl \<Rightarrow> fl list \<Rightarrow> exn + cmat np" where
  "sigma_conjugated eigh self ang rot_ax =
    (case rotation eigh self ang rot_ax of
       Inl err \<Rightarrow> Inl err
     | Inr R1 \<Rightarrow>
         (case rotation eigh self (fl_neg ang) rot_ax of
            Inl err \<Rightarrow> Inl err
          | Inr R2 \<Rightarrow> Inr (np_einsum3 R1 (Fin (SigmaXY self)) R2)))"

definition reflection :: "eigh_fn \<Rightarrow> space \<Rightarrow> fl list \<Rightarrow> exn + cmat np" where
  "reflection eigh self ax =
    (if length ax < 3 then Inl IndexError
     else if length ax \<noteq> 3 then Inl ValueError
     else sigma_conjugated eigh self (reflection_angle ax) (reflection_axis ax))"

text \<open>
  \<open>SU.gen_op\<close>: the lines a call prints, and the exception raised or the value
  returned. A Python function that reaches its end returns \<open>None\<close>.
\<close>

datatype pyval = PyNone | Array "cmat np"

definition not_recognized :: string where
  "not_recognized =
    ''Operator type is not recognized; please specifiy either rotation (rot) or reflection (ref).''"

text \<open>
  The axis after \<open>np.asarray\<close> (line 71): an array of float64 for a list that holds a
  Python float, and an array of int64 for a list of Python integers that fit int64, the
  default integer of numpy on Linux and macOS. A component given as a real number is
  read into the range of float64. An axis that is not a list of such numbers is not
  modelled.
\<close>

datatype axis = Float64 "real list" | Int64 "64 word list"

text \<open>
  Line 72, \<open>ax = ax / np.sqrt(np.sum(ax**2))\<close>. On an array of float64 every operation
  is that of float64. On an array of int64 the squares and their sum are int64 and wrap
  around modulo \<open>2^64\<close>; \<open>np.sqrt\<close> converts the sum to float64 and the division
  converts the components.
\<close>

definition normalize :: "axis \<Rightarrow> fl list" where
  "normalize ax =
    (case ax of
       Float64 xs \<Rightarrow>
         (let v = map f64 xs
          in map (\<lambda>x. fl_div x (fl_sqrt (fl_sum (map (\<lambda>y. fl_mul y y) v)))) v)
     | Int64 ns \<Rightarrow>
         (let s = foldl (+) 0 (map (\<lambda>n. n * n) ns)
          in map (\<lambda>n. fl_div (Finite (real_of_int (sint n)))
                        (fl_sqrt (Finite (real_of_int (sint s))))) ns))"

text \<open>
  \<open>np.pi\<close> is the float64 nearest to \<open>pi\<close>, and \<open>2. * np.pi\<close> is its double exactly.
\<close>

definition np_pi :: real where
  "np_pi = 884279719003555 / 2 ^ 48"

text \<open>
  Lines 71 to 75: the axis normalised, the absolute value of the angle, the assertion.
  The angle is a float64 that is a number.
\<close>

definition gen_op_check :: "real \<Rightarrow> axis \<Rightarrow> exn + (real \<times> fl list)" where
  "gen_op_check ang ax =
    (let ax2 = normalize ax;
         ang1 = \<bar>ang\<bar>
     in if length ax2 = 3 \<and> ang1 < 2 * np_pi then Inr (ang1, ax2) else Inl AssertionError)"

definition gen_op :: "eigh_fn \<Rightarrow> space \<Rightarrow> real \<Rightarrow> axis \<Rightarrow> string \<Rightarrow> string list \<times> (exn + pyval)" where
  "gen_op eigh self ang ax op_type =
    (case gen_op_check ang ax of
       Inl err \<Rightarrow> ([], Inl err)
     | Inr (ang1, ax2) \<Rightarrow>
         if op_type = ''Cn'' then
           ([], case rotation eigh self (Finite ang1) ax2 of
                  Inl err \<Rightarrow> Inl err | Inr R \<Rightarrow> Inr (Array R))
         else if op_type = ''Sigma'' then
           ([], case reflection eigh self ax2 of
                  Inl err \<Rightarrow> Inl err | Inr S \<Rightarrow> Inr (Array S))
         else if op_type = ''Sn'' then
           ([], case reflection eigh self ax2 of
                  Inl err \<Rightarrow> Inl err
                | Inr S \<Rightarrow>
                    (case rotation eigh self (Finite ang1) ax2 of
                       Inl err \<Rightarrow> Inl err | Inr R \<Rightarrow> Inr (Array (np_dot S R))))
         else ([not_recognized], Inr PyNone))"

section \<open>Notions of the statements and of the proofs\<close>

text \<open>The object that \<open>SU(l)\<close> holds once every assertion has passed.\<close>

definition space_of :: "int \<Rightarrow> space" where
  "space_of l = \<lparr>L = l, Lx = Lx_matrix l, Ly = Ly_matrix l, Lz = Lz_matrix l, SigmaXY = SigmaXY_matrix l\<rparr>"

text \<open>
  An instance of the parameter \<open>eigh\<close> for the worked examples: exact on a diagonal array
  whose diagonal is real and ascending, and arrays of NaN for an array of NaN.
\<close>

definition eigh_diagonal :: eigh_fn where
  "eigh_diagonal M =
    (case M of
       NaN \<Rightarrow> Inr NaN
     | Fin A \<Rightarrow> Inr (Fin (map (\<lambda>i. Re (A ! i ! i)) [0..<length A], eye (length A))))"

text \<open>
  A second instance, for a LAPACK build that does not converge on an array that holds
  NaN: \<open>np.linalg.eigh\<close> raises \<open>LinAlgError\<close> there.
\<close>

definition eigh_raising :: eigh_fn where
  "eigh_raising M = (case M of NaN \<Rightarrow> Inl LinAlgError | Fin A \<Rightarrow> eigh_diagonal (Fin A))"

text \<open>The number of components of the axis given to \<open>gen_op\<close>.\<close>

definition len :: "axis \<Rightarrow> nat" where
  "len ax = (case ax of Float64 xs \<Rightarrow> length xs | Int64 ns \<Rightarrow> length ns)"

text \<open>
  The axes whose norm line 72 computes as a positive number: float64 components none of
  which is an infinity and one of which has a square above \<open>2^-1075\<close>, so that the sum
  of the squares does not underflow to zero, or int64 components whose sum of squares,
  wrapped around, is positive.
\<close>

definition normalizable :: "axis \<Rightarrow> bool" where
  "normalizable ax =
    (case ax of
       Float64 xs \<Rightarrow> (\<forall>x\<in>set xs. \<bar>x\<bar> < f64_over) \<and> (\<exists>x\<in>set xs. f64_tiny < x * x)
     | Int64 ns \<Rightarrow> 0 < sint (foldl (+) 0 (map (\<lambda>n. n * n) ns)))"

text \<open>A float64 that is at least the real number \<open>r\<close>; the positive infinity is.\<close>

fun fl_ge :: "fl \<Rightarrow> real \<Rightarrow> bool" where
  "fl_ge (Finite s) r = (r \<le> s)"
| "fl_ge PosInf r = True"
| "fl_ge NegInf r = False"
| "fl_ge NotANumber r = False"

text \<open>
  The side \<open>2L + 1\<close> of the arrays, and the off-diagonal entry
  \<open>sqrt((j + 1)(2L - j))\<close> that \<open>Lp\<close> holds at \<open>(j + 1, j)\<close> and \<open>Lm\<close> at \<open>(j, j + 1)\<close>.
\<close>

definition side :: "int \<Rightarrow> nat" where
  "side l = nat (2 * l + 1)"

definition cc :: "int \<Rightarrow> nat \<Rightarrow> real" where
  "cc l j = sqrt (of_int ((int j + 1) * (2 * l - int j)))"

text \<open>The entries of \<open>Lx\<close>, \<open>Ly\<close> and \<open>Lz\<close> at row \<open>i\<close> and column \<open>j\<close>.\<close>

definition ex :: "int \<Rightarrow> nat \<Rightarrow> nat \<Rightarrow> complex" where
  "ex l i j = (if i = Suc j then complex_of_real (cc l j / 2)
     else if j = Suc i then complex_of_real (cc l i / 2) else 0)"

definition ey :: "int \<Rightarrow> nat \<Rightarrow> nat \<Rightarrow> complex" where
  "ey l i j = (if i = Suc j then - \<i> * complex_of_real (cc l j / 2)
     else if j = Suc i then \<i> * complex_of_real (cc l i / 2) else 0)"

definition ez :: "int \<Rightarrow> nat \<Rightarrow> nat \<Rightarrow> complex" where
  "ez l i j = (if i = j then of_int (int i - l) else 0)"

text \<open>The conjugate transpose \<open>np.conj(A.T)\<close>.\<close>

definition mat_adj :: "cmat \<Rightarrow> cmat" where
  "mat_adj A = mat_conj (mat_T A)"

text \<open>
  What the documentation of \<open>np.linalg.eigh\<close> promises of the eigenvectors, for the
  Hermitian arrays of side \<open>d\<close>: \<open>d\<close> eigenvalues, and an array \<open>v\<close> of side \<open>d\<close> whose
  columns are orthonormal, so that \<open>v\<close> times its conjugate transpose is the identity on
  both sides.
\<close>

definition eigh_unitary :: "eigh_fn \<Rightarrow> nat \<Rightarrow> bool" where
  "eigh_unitary eigh d =
    (\<forall>M. has_shape M d d \<and> mat_adj M = M \<longrightarrow>
      (\<exists>e v. eigh (Fin M) = Inr (Fin (e, v)) \<and> length e = d \<and> has_shape v d d
        \<and> mat_dot v (mat_adj v) = eye d \<and> mat_dot (mat_adj v) v = eye d))"

text \<open>The array \<open>v diag(zs) v^H\<close> that line 91 computes.\<close>

definition spectral :: "cmat \<Rightarrow> complex list \<Rightarrow> cmat" where
  "spectral v zs = einsum3 v (np_diag zs 0) (mat_conj (mat_T v))"

text \<open>
  The notions of the specification of the reflection, over the reals: the normalised
  vector, the representative whose third component is not negative, the cross product
  and the normal \<open>z_hat\<close> of the reference plane.
\<close>

definition unit_vec :: "real list \<Rightarrow> real list" where
  "unit_vec v = map (\<lambda>t. t / sqrt (\<Sum>u\<leftarrow>v. u * u)) v"

definition canonical :: "real list \<Rightarrow> real list" where
  "canonical v = (if v ! 2 < 0 then map uminus v else v)"

definition cross3 :: "real list \<Rightarrow> real list \<Rightarrow> real list" where
  "cross3 a b =
    [a ! 1 * b ! 2 - a ! 2 * b ! 1, a ! 2 * b ! 0 - a ! 0 * b ! 2, a ! 0 * b ! 1 - a ! 1 * b ! 0]"

definition z_hat :: "real list" where
  "z_hat = [0, 0, 1]"

text \<open>
  The reflection as the specification words it, to be compared with \<open>reflection\<close>:
  \<open>rotate(-phi, r) . SigmaRef . rotate(+phi, r)\<close>, with \<open>phi\<close> the angle whose cosine is
  \<open>z_hat . n\<close> and \<open>r\<close> the normalised \<open>z_hat x n\<close>, for the unit normal \<open>n\<close> made
  canonical. The rotation is that of line 91, by the signed angle, so that \<open>-phi\<close> and
  \<open>+phi\<close> differ.
\<close>

definition reflect_spec :: "eigh_fn \<Rightarrow> space \<Rightarrow> real list \<Rightarrow> exn + cmat np" where
  "reflect_spec eigh self n =
    (let nn = canonical (unit_vec n);
         phi = arccos (z_hat ! 0 * nn ! 0 + z_hat ! 1 * nn ! 1 + z_hat ! 2 * nn ! 2);
         r = unit_vec (cross3 z_hat nn)
     in sigma_conjugated eigh self (Finite (- phi)) (map Finite r))"

text \<open>
  An instance of the parameter \<open>eigh\<close> for the worked examples with \<open>L = 1\<close> and the axis
  \<open>(1, 0, 0)\<close>: the eigenvalues and the orthonormal eigenvectors of \<open>Lx\<close>.
\<close>

definition Vx1 :: cmat where
  "Vx1 = map (map complex_of_real)
     [[1 / 2, 1 / sqrt 2, 1 / 2],
      [- (1 / sqrt 2), 0, 1 / sqrt 2],
      [1 / 2, - (1 / sqrt 2), 1 / 2]]"

definition eigh_x1 :: eigh_fn where
  "eigh_x1 M = (case M of NaN \<Rightarrow> Inr NaN | Fin A \<Rightarrow> Inr (Fin ([- 1, 0, 1], Vx1)))"

text \<open>
  The product of the claim on the involution: the reflection that \<open>gen_op\<close> returns,
  multiplied by itself with \<open>np.dot\<close>.
\<close>

definition reflect_twice :: "eigh_fn \<Rightarrow> space \<Rightarrow> axis \<Rightarrow> exn + cmat np" where
  "reflect_twice eigh self n =
    (case snd (gen_op eigh self 0 n ''Sigma'') of
       Inl err \<Rightarrow> Inl err
     | Inr PyNone \<Rightarrow> Inl TypeError
     | Inr (Array S) \<Rightarrow> Inr (np_dot S S))"

text \<open>
  For the spectra of \<open>Lx\<close> and \<open>Ly\<close>: \<open>pw a b k\<close> is the coefficient of \<open>t^k\<close> in the
  polynomial \<open>(t + 1)^a (t - 1)^b\<close>.
\<close>

fun pw :: "nat \<Rightarrow> nat \<Rightarrow> int \<Rightarrow> real" where
  "pw 0 0 k = (if k = 0 then 1 else 0)"
| "pw 0 (Suc b) k = pw 0 b (k - 1) - pw 0 b k"
| "pw (Suc a) b k = pw a b (k - 1) + pw a b k"

text \<open>The substitution of \<open>t + 1\<close> and \<open>t - 1\<close> for the two variables of a form of degree \<open>n\<close>.\<close>

definition subst_pm :: "nat \<Rightarrow> (nat \<Rightarrow> real) \<Rightarrow> int \<Rightarrow> real" where
  "subst_pm n w i = (\<Sum>j\<le>n. w j * pw j (n - j) i)"

text \<open>
  The eigenvalues of a square array: the numbers \<open>lam\<close> with \<open>A v = lam v\<close> for a vector
  \<open>v\<close> that is not zero.
\<close>

definition mat_vec :: "cmat \<Rightarrow> complex list \<Rightarrow> complex list" where
  "mat_vec A v = map (\<lambda>row. \<Sum>k<length v. row ! k * v ! k) A"

definition is_eigenvalue :: "cmat \<Rightarrow> complex \<Rightarrow> bool" where
  "is_eigenvalue A lam =
    (\<exists>v. length v = length A \<and> (\<exists>x\<in>set v. x \<noteq> 0) \<and> mat_vec A v = map ((*) lam) v)"

definition eigenvalues :: "cmat \<Rightarrow> complex set" where
  "eigenvalues A = {lam. is_eigenvalue A lam}"

text \<open>The same for an array given by its entries \<open>a i k\<close>, \<open>i, k < d\<close>.\<close>

definition eig_fun :: "nat \<Rightarrow> (nat \<Rightarrow> nat \<Rightarrow> complex) \<Rightarrow> complex \<Rightarrow> bool" where
  "eig_fun d a lam =
    (\<exists>f. (\<exists>i<d. f i \<noteq> 0) \<and> (\<forall>i<d. (\<Sum>k<d. a i k * f k) = lam * f i))"

text \<open>The weight \<open>sqrt(k! (n - k)!)\<close> that turns the coefficients into an eigenvector.\<close>

definition gg :: "nat \<Rightarrow> nat \<Rightarrow> real" where
  "gg n k = sqrt (fact k * fact (n - k))"

section \<open>Entries of the arrays\<close>

lemma length_mk_mat [simp]: "length (mk_mat r c f) = r"
  by (simp add: mk_mat_def)

lemma length_mk_mat_row [simp]: "i < r \<Longrightarrow> length (mk_mat r c f ! i) = c"
  by (simp add: mk_mat_def)

lemma mk_mat_nth [simp]: "i < r \<Longrightarrow> j < c \<Longrightarrow> mk_mat r c f ! i ! j = f i j"
  by (simp add: mk_mat_def)

lemma ncols_mk_mat [simp]: "0 < r \<Longrightarrow> ncols (mk_mat r c f) = c"
  by (cases r) (simp_all add: mk_mat_def ncols_def upt_conv_Cons del: upt_Suc)

lemma has_shape_mk_mat [simp]: "has_shape (mk_mat r c f) r c"
  by (simp add: has_shape_def mk_mat_def list_all_iff)

lemma has_shape_nth: "has_shape A r c \<Longrightarrow> i < r \<Longrightarrow> length (A ! i) = c"
  by (auto simp: has_shape_def list_all_iff)

lemma has_shape_ncols: "has_shape A r c \<Longrightarrow> 0 < r \<Longrightarrow> ncols A = c"
  by (cases A) (auto simp: has_shape_def ncols_def)

text \<open>Two arrays of one shape are equal when their entries are.\<close>

lemma mat_eqI:
  assumes "has_shape A r c" and "has_shape B r c"
    and "\<And>i j. i < r \<Longrightarrow> j < c \<Longrightarrow> A ! i ! j = B ! i ! j"
  shows "A = B"
proof (rule nth_equalityI)
  show "length A = length B"
    using assms(1,2) by (simp add: has_shape_def)
next
  fix i assume i: "i < length A"
  then have ir: "i < r" using assms(1) by (simp add: has_shape_def)
  show "A ! i = B ! i"
  proof (rule nth_equalityI)
    show "length (A ! i) = length (B ! i)"
      using has_shape_nth [OF assms(1) ir] has_shape_nth [OF assms(2) ir] by simp
  next
    fix j assume "j < length (A ! i)"
    then have "j < c" using has_shape_nth [OF assms(1) ir] by simp
    then show "A ! i ! j = B ! i ! j" using assms(3) ir by simp
  qed
qed

lemma has_shape_mat_add [simp]:
  "has_shape A r c \<Longrightarrow> has_shape B r c \<Longrightarrow> has_shape (mat_add A B) r c"
  by (auto simp: has_shape_def mat_add_def list_all_iff set_zip)

lemma has_shape_mat_sub [simp]:
  "has_shape A r c \<Longrightarrow> has_shape B r c \<Longrightarrow> has_shape (mat_sub A B) r c"
  by (auto simp: has_shape_def mat_sub_def list_all_iff set_zip)

lemma has_shape_mat_scale [simp]: "has_shape A r c \<Longrightarrow> has_shape (mat_scale z A) r c"
  by (auto simp: has_shape_def mat_scale_def list_all_iff)

lemma has_shape_mat_conj [simp]: "has_shape A r c \<Longrightarrow> has_shape (mat_conj A) r c"
  by (auto simp: has_shape_def mat_conj_def list_all_iff)

lemma has_shape_mat_T [simp]: "has_shape A r c \<Longrightarrow> 0 < r \<Longrightarrow> has_shape (mat_T A) c r"
  by (simp add: mat_T_def has_shape_ncols) (simp add: has_shape_def mk_mat_def list_all_iff)

lemma mat_add_nth [simp]:
  "has_shape A r c \<Longrightarrow> has_shape B r c \<Longrightarrow> i < r \<Longrightarrow> j < c \<Longrightarrow>
   mat_add A B ! i ! j = A ! i ! j + B ! i ! j"
  by (simp add: mat_add_def has_shape_def list_all_iff)

lemma mat_sub_nth [simp]:
  "has_shape A r c \<Longrightarrow> has_shape B r c \<Longrightarrow> i < r \<Longrightarrow> j < c \<Longrightarrow>
   mat_sub A B ! i ! j = A ! i ! j - B ! i ! j"
  by (simp add: mat_sub_def has_shape_def list_all_iff)

lemma mat_scale_nth [simp]:
  "has_shape A r c \<Longrightarrow> i < r \<Longrightarrow> j < c \<Longrightarrow> mat_scale z A ! i ! j = z * A ! i ! j"
  by (simp add: mat_scale_def has_shape_def list_all_iff)

lemma mat_conj_nth [simp]:
  "has_shape A r c \<Longrightarrow> i < r \<Longrightarrow> j < c \<Longrightarrow> mat_conj A ! i ! j = cnj (A ! i ! j)"
  by (simp add: mat_conj_def has_shape_def list_all_iff)

lemma mat_T_nth [simp]:
  "has_shape A r c \<Longrightarrow> i < c \<Longrightarrow> j < r \<Longrightarrow> mat_T A ! i ! j = A ! j ! i"
  by (cases "r = 0") (simp_all add: mat_T_def has_shape_ncols, simp add: has_shape_def)

lemma has_shape_np_diag [simp]: "has_shape (np_diag v k) (length v + nat \<bar>k\<bar>) (length v + nat \<bar>k\<bar>)"
  by (simp add: np_diag_def Let_def)

lemma np_diag_nth:
  "i < length v + nat \<bar>k\<bar> \<Longrightarrow> j < length v + nat \<bar>k\<bar> \<Longrightarrow>
   np_diag v k ! i ! j = (if int j - int i = k then v ! (if 0 \<le> k then i else j) else 0)"
  by (simp add: np_diag_def Let_def)

lemma has_shape_Lz [simp]: "0 \<le> l \<Longrightarrow> has_shape (Lz_matrix l) (side l) (side l)"
  using has_shape_np_diag [of "map (\<lambda>m. of_int m) [- l..l + 1 - 1]" 0]
  by (simp add: Lz_matrix_def side_def)

lemma has_shape_Lp [simp]: "0 \<le> l \<Longrightarrow> has_shape (Lp_matrix l) (side l) (side l)"
  unfolding Lp_matrix_def
  using has_shape_np_diag [of "map (\<lambda>m. complex_of_real (sqrt (of_int (l * (l + 1) - m * (m + 1))))) [- l..l - 1]" "-1"]
  by (simp add: side_def nat_add_distrib)

lemma has_shape_Lm [simp]: "0 \<le> l \<Longrightarrow> has_shape (Lm_matrix l) (side l) (side l)"
  unfolding Lm_matrix_def
  using has_shape_np_diag [of "map (\<lambda>m. complex_of_real (sqrt (of_int (l * (l + 1) - m * (m - 1))))) [- l + 1..l + 1 - 1]" "1"]
  by (simp add: side_def nat_add_distrib)

lemma has_shape_Lx [simp]: "0 \<le> l \<Longrightarrow> has_shape (Lx_matrix l) (side l) (side l)"
  by (simp add: Lx_matrix_def)

lemma has_shape_Ly [simp]: "0 \<le> l \<Longrightarrow> has_shape (Ly_matrix l) (side l) (side l)"
  by (simp add: Ly_matrix_def)

lemma has_shape_SigmaXY [simp]: "0 \<le> l \<Longrightarrow> has_shape (SigmaXY_matrix l) (side l) (side l)"
  using has_shape_np_diag [of "map (\<lambda>m. (- 1) ^ nat (l + m)) [- l..l + 1 - 1]" 0]
  by (simp add: SigmaXY_matrix_def side_def)

lemma Lz_nth:
  assumes "0 \<le> l" "i < side l" "j < side l"
  shows "Lz_matrix l ! i ! j = (if i = j then of_int (int i - l) else 0)"
  using assms by (simp add: Lz_matrix_def np_diag_nth side_def)

lemma SigmaXY_nth:
  assumes "0 \<le> l" "i < side l" "j < side l"
  shows "SigmaXY_matrix l ! i ! j = (if i = j then (- 1) ^ i else 0)"
  using assms by (simp add: SigmaXY_matrix_def np_diag_nth side_def)

lemma Lp_nth:
  assumes "0 \<le> l" "i < side l" "j < side l"
  shows "Lp_matrix l ! i ! j = (if i = Suc j then complex_of_real (cc l j) else 0)"
proof -
  have "int j - int i = - 1 \<longleftrightarrow> i = Suc j" by auto
  then show ?thesis
    using assms by (auto simp: Lp_matrix_def np_diag_nth side_def cc_def nat_add_distrib algebra_simps)
qed

lemma Lm_nth:
  assumes "0 \<le> l" "i < side l" "j < side l"
  shows "Lm_matrix l ! i ! j = (if j = Suc i then complex_of_real (cc l i) else 0)"
proof -
  have "int j - int i = 1 \<longleftrightarrow> j = Suc i" by auto
  then show ?thesis
    using assms by (auto simp: Lm_matrix_def np_diag_nth side_def cc_def nat_add_distrib algebra_simps)
qed

lemma Lx_nth:
  assumes "0 \<le> l" "i < side l" "j < side l"
  shows "Lx_matrix l ! i ! j =
    (if i = Suc j then complex_of_real (cc l j / 2)
     else if j = Suc i then complex_of_real (cc l i / 2) else 0)"
  using assms
  by (simp add: Lx_matrix_def Lp_nth Lm_nth
      mat_scale_nth [where r = "side l" and c = "side l"]
      mat_add_nth [where r = "side l" and c = "side l"])

lemma Ly_nth:
  assumes "0 \<le> l" "i < side l" "j < side l"
  shows "Ly_matrix l ! i ! j =
    (if i = Suc j then - \<i> * complex_of_real (cc l j / 2)
     else if j = Suc i then \<i> * complex_of_real (cc l i / 2) else 0)"
  using assms
  by (simp add: Ly_matrix_def Lp_nth Lm_nth
      mat_scale_nth [where r = "side l" and c = "side l"]
      mat_sub_nth [where r = "side l" and c = "side l"])

lemma side_pos [simp]: "0 \<le> l \<Longrightarrow> 0 < side l"
  by (simp add: side_def)

lemma Lx_hermitian: "0 \<le> l \<Longrightarrow> mat_conj (mat_T (Lx_matrix l)) = Lx_matrix l"
  by (rule mat_eqI [where r = "side l" and c = "side l"])
    (simp_all add: Lx_nth mat_conj_nth [where r = "side l" and c = "side l"]
      mat_T_nth [where r = "side l" and c = "side l"])

lemma Ly_hermitian: "0 \<le> l \<Longrightarrow> mat_conj (mat_T (Ly_matrix l)) = Ly_matrix l"
  by (rule mat_eqI [where r = "side l" and c = "side l"])
    (simp_all add: Ly_nth mat_conj_nth [where r = "side l" and c = "side l"]
      mat_T_nth [where r = "side l" and c = "side l"])

lemma Lz_hermitian: "0 \<le> l \<Longrightarrow> mat_conj (mat_T (Lz_matrix l)) = Lz_matrix l"
  by (rule mat_eqI [where r = "side l" and c = "side l"])
    (simp_all add: Lz_nth mat_conj_nth [where r = "side l" and c = "side l"]
      mat_T_nth [where r = "side l" and c = "side l"])

lemma isclose_refl [simp]: "isclose a a"
  by (simp add: isclose_def)

lemma allclose_refl [simp]: "allclose A A"
  by (simp add: allclose_def list_all2_same list.rel_refl)

lemma SU_init_PyInt:
  assumes "0 \<le> l"
  shows "SU_init eigvalsh (PyInt l) =
    (if spectra_checked eigvalsh l then Inr (space_of l) else Inl AssertionError)"
  using assms
  by (simp add: SU_init_def Let_def Lx_hermitian Ly_hermitian Lz_hermitian space_of_def
      side_def [symmetric])

lemma SU_init_Inr:
  assumes "SU_init eigvalsh Lv = Inr sp"
  shows "\<exists>l. 0 \<le> l \<and> Lv = PyInt l \<and> sp = space_of l"
proof (cases Lv)
  case (PyInt l)
  with assms have "0 \<le> l" by (auto simp: SU_init_def split: if_splits)
  with assms PyInt show ?thesis by (auto simp: SU_init_PyInt split: if_splits)
next
  case (PyFloat x)
  with assms show ?thesis by (auto simp: SU_init_def split: if_splits)
qed

section \<open>Rejected parameters\<close>

text \<open>
  Claim C7. The construction fails for every \<open>L\<close> that is negative or not an integer: a
  negative \<open>L\<close> (an \<open>int\<close> or a \<open>float\<close>) fails the first assertion, and a float that is
  not negative raises \<open>TypeError\<close> at the first \<open>range\<close>, before any array is built. No
  space is returned for a coerced value.
\<close>

theorem SU_init_invalid_L:
  assumes "(\<exists>l. Lv = PyInt l \<and> l < 0) \<or> (\<exists>x. Lv = PyFloat x)"
  shows "SU_init eigvalsh Lv = Inl (if py_ge0 Lv then TypeError else AssertionError)"
  using assms by (auto simp: SU_init_def)

theorem SU_init_invalid_L_witness:
  "SU_init (\<lambda>M. []) (PyInt (- 1)) = Inl AssertionError
   \<and> SU_init (\<lambda>M. []) (PyFloat (3 / 2)) = Inl TypeError
   \<and> SU_init (\<lambda>M. []) (PyFloat (- 1 / 2)) = Inl AssertionError
   \<and> SU_init (\<lambda>M. []) (PyFloat 2) = Inl TypeError"
proof -
  have i: "(\<exists>l. PyInt (- 1) = PyInt l \<and> l < 0) \<or> (\<exists>x. PyInt (- 1) = PyFloat x)"
    by simp
  have f: "(\<exists>l. PyFloat y = PyInt l \<and> l < 0) \<or> (\<exists>x. PyFloat y = PyFloat x)" for y
    by blast
  show ?thesis
    using SU_init_invalid_L [OF i, of "\<lambda>M. []"] SU_init_invalid_L [OF f, of "\<lambda>M. []"]
    by simp
qed

lemma f64_0 [simp]: "f64 0 = Finite 0"
  by (simp add: f64_def f64_tiny_def)

lemma f64_1 [simp]: "f64 1 = Finite 1"
  by (simp add: f64_def f64_tiny_def f64_over_def)

lemma f64_minus_1 [simp]: "f64 (- 1) = Finite (- 1)"
  by (simp add: f64_def f64_tiny_def f64_over_def)

lemma length_normalize [simp]: "length (normalize ax) = len ax"
  by (cases ax) (simp_all add: normalize_def len_def Let_def)

lemma gen_op_check_eq:
  "gen_op_check ang ax =
    (if len ax = 3 \<and> \<bar>ang\<bar> < 2 * np_pi then Inr (\<bar>ang\<bar>, normalize ax) else Inl AssertionError)"
  by (simp add: gen_op_check_def Let_def)

text \<open>
  The float64 \<open>np.pi\<close> lies below \<open>pi\<close>, by the formula of Machin and the partial sums of
  the series of the arc tangent.
\<close>

lemma arctan_partial_sums:
  fixes x :: real
  assumes "0 \<le> x" "x \<le> 1"
  shows "(\<Sum>k<2 * n. (- 1) ^ k * (1 / real (k * 2 + 1) * x ^ (k * 2 + 1))) \<le> arctan x"
    and "arctan x \<le> (\<Sum>k<2 * n + 1. (- 1) ^ k * (1 / real (k * 2 + 1) * x ^ (k * 2 + 1)))"
proof -
  let ?a = "\<lambda>k. 1 / real (k * 2 + 1) * x ^ (k * 2 + 1)"
  have ax: "\<bar>x\<bar> \<le> 1" using assms by simp
  have z: "?a \<longlonglongrightarrow> 0" by (rule zeroseq_arctan_series [OF ax])
  have p: "0 \<le> ?a k" for k using assms by simp
  have m: "?a (Suc k) \<le> ?a k" for k
  proof -
    have "x ^ (Suc k * 2 + 1) \<le> x ^ (k * 2 + 1)"
      using assms by (intro power_decreasing) simp_all
    moreover have "1 / real (Suc k * 2 + 1) \<le> 1 / real (k * 2 + 1)"
      by (simp add: frac_le)
    ultimately show ?thesis
      using assms by (intro mult_mono) simp_all
  qed
  have s: "arctan x = (\<Sum>k. (- 1) ^ k * ?a k)" by (rule arctan_series [OF ax])
  show "(\<Sum>k<2 * n. (- 1) ^ k * ?a k) \<le> arctan x"
    unfolding s by (rule summable_Leibniz'(2) [OF z p m])
  show "arctan x \<le> (\<Sum>k<2 * n + 1. (- 1) ^ k * ?a k)"
    unfolding s by (rule summable_Leibniz'(4) [OF z p m])
qed

lemma np_pi_less_pi: "np_pi < pi"
proof -
  have l: "(\<Sum>k<2 * 6. (- 1) ^ k * (1 / real (k * 2 + 1) * (1 / 5) ^ (k * 2 + 1))) \<le> arctan (1 / 5)"
    by (rule arctan_partial_sums(1)) simp_all
  have u: "arctan (1 / 239) \<le> (\<Sum>k<2 * 1 + 1. (- 1) ^ k * (1 / real (k * 2 + 1) * (1 / 239) ^ (k * 2 + 1)))"
    by (rule arctan_partial_sums(2)) simp_all
  have "np_pi / 4 < 4 * (\<Sum>k<2 * 6. (- 1) ^ k * (1 / real (k * 2 + 1) * (1 / 5) ^ (k * 2 + 1)))
      - (\<Sum>k<2 * 1 + 1. (- 1) ^ k * (1 / real (k * 2 + 1) * (1 / 239) ^ (k * 2 + 1)))"
    by (simp add: np_pi_def lessThan_nat_numeral lessThan_Suc power_divide)
  also have "\<dots> \<le> 4 * arctan (1 / 5) - arctan (1 / 239)"
    using l u by simp
  also have "\<dots> = pi / 4" by (rule machin [symmetric])
  finally show ?thesis by simp
qed

text \<open>
  Claim C8, as amended. \<open>gen_op\<close> raises \<open>AssertionError\<close>, before any operator is
  computed and whatever the operator type, when the angle is at least the float64
  \<open>2. * np.pi\<close> in absolute value, in particular when it is at least \<open>2 pi\<close>, or the
  axis does not have three components.
\<close>

theorem gen_op_guard:
  assumes "2 * np_pi \<le> \<bar>ang\<bar> \<or> 2 * pi \<le> \<bar>ang\<bar> \<or> len ax \<noteq> 3"
  shows "gen_op eigh self ang ax op_type = ([], Inl AssertionError)"
  using assms np_pi_less_pi by (auto simp: gen_op_def gen_op_check_eq)

theorem gen_op_guard_witness:
  "gen_op eigh_diagonal (space_of 1) (- 8) (Float64 [0, 0, 1]) ''Cn'' = ([], Inl AssertionError)
   \<and> gen_op eigh_diagonal (space_of 1) (2 * np_pi) (Float64 [0, 0, 1]) ''Cn'' = ([], Inl AssertionError)
   \<and> gen_op eigh_diagonal (space_of 1) 1 (Float64 [0, 1]) ''Sigma'' = ([], Inl AssertionError)
   \<and> gen_op eigh_diagonal (space_of 1) 1 (Int64 [0, 1]) ''Sigma'' = ([], Inl AssertionError)"
proof -
  have "2 * pi \<le> \<bar>- 8 :: real\<bar>" using pi_less_4 by simp
  moreover have "2 * np_pi \<le> \<bar>2 * np_pi\<bar>" by simp
  ultimately show ?thesis
    using gen_op_guard [of "- 8" "Float64 [0, 0, 1]" eigh_diagonal "space_of 1" "''Cn''"]
      gen_op_guard [of "2 * np_pi" "Float64 [0, 0, 1]" eigh_diagonal "space_of 1" "''Cn''"]
      gen_op_guard [of 1 "Float64 [0, 1]" eigh_diagonal "space_of 1" "''Sigma''"]
      gen_op_guard [of 1 "Int64 [0, 1]" eigh_diagonal "space_of 1" "''Sigma''"]
    by (simp add: len_def)
qed

text \<open>
  The zero axis is not rejected: its normalisation is \<open>0 / 0\<close>, the assertion passes, and
  the rotation is computed on an axis of NaN.
\<close>

lemma fl_sum_3: "fl_sum [a, b, c] = fl_add (fl_add (fl_add (Finite 0) a) b) c"
  by (simp add: fl_sum_def)

lemma gen_op_check_zero_axis:
  "gen_op_check 0 (Float64 [0, 0, 0]) = Inr (0, [NotANumber, NotANumber, NotANumber])"
  by (simp add: gen_op_check_eq len_def normalize_def Let_def fl_sum_3 np_pi_def)

theorem gen_op_zero_axis_counterexample:
  "gen_op_check 0 (Float64 [0, 0, 0]) = Inr (0, [NotANumber, NotANumber, NotANumber])
   \<and> gen_op eigh_diagonal (space_of 1) 0 (Float64 [0, 0, 0]) ''Cn'' = ([], Inr (Array NaN))"
  by (simp add: gen_op_def gen_op_check_zero_axis rotation_def axis_generator_def
      eigh_diagonal_def)

text \<open>
  Claim C9, as amended. For an operator type other than \<open>Cn\<close>, \<open>Sigma\<close> and \<open>Sn\<close>,
  \<open>gen_op\<close> prints a message and returns \<open>None\<close> when the assertion passes, and raises
  \<open>AssertionError\<close> when it fails. The assertion compares the angle with the float64
  \<open>2. * np.pi\<close>.
\<close>

theorem gen_op_unrecognized:
  assumes "op_type \<notin> {''Cn'', ''Sigma'', ''Sn''}"
  shows "gen_op eigh self ang ax op_type =
    (if len ax = 3 \<and> \<bar>ang\<bar> < 2 * np_pi then ([not_recognized], Inr PyNone)
     else ([], Inl AssertionError))"
  using assms by (auto simp: gen_op_def gen_op_check_eq)

theorem gen_op_unrecognized_witness:
  "gen_op eigh_diagonal (space_of 1) 1 (Float64 [1, 0, 0]) ''ref'' = ([not_recognized], Inr PyNone)
   \<and> gen_op eigh_diagonal (space_of 1) 8 (Float64 [1, 0, 0]) ''ref'' = ([], Inl AssertionError)"
proof -
  have a: "\<bar>1::real\<bar> < 2 * np_pi" by (simp add: np_pi_def)
  have b: "\<not> \<bar>8::real\<bar> < 2 * np_pi" by (simp add: np_pi_def)
  have t: "''ref'' \<notin> {''Cn'', ''Sigma'', ''Sn''}" by simp
  show ?thesis
    using a b gen_op_unrecognized [OF t, of eigh_diagonal "space_of 1" 1 "Float64 [1, 0, 0]"]
      gen_op_unrecognized [OF t, of eigh_diagonal "space_of 1" 8 "Float64 [1, 0, 0]"]
    by (simp add: len_def)
qed

text \<open>The tag \<open>rot\<close>, which the printed message itself suggests, returns \<open>None\<close>.\<close>

theorem gen_op_unrecognized_counterexample:
  "gen_op eigh_diagonal (space_of 1) 1 (Float64 [0, 0, 1]) ''rot'' = ([not_recognized], Inr PyNone)"
proof -
  have "\<bar>1::real\<bar> < 2 * np_pi" by (simp add: np_pi_def)
  then show ?thesis by (simp add: gen_op_def gen_op_check_eq len_def)
qed

lemma entries_allI:
  assumes "has_shape A r c" and "\<And>i j. i < r \<Longrightarrow> j < c \<Longrightarrow> P (A ! i ! j)"
  shows "\<forall>row\<in>set A. \<forall>z\<in>set row. P z"
proof (intro ballI)
  fix row z assume "row \<in> set A" "z \<in> set row"
  then obtain i j where i: "i < length A" "row = A ! i" and j: "j < length row" "z = row ! j"
    by (auto simp: in_set_conv_nth)
  from i assms(1) have "i < r" by (simp add: has_shape_def)
  moreover with j i have "j < c" using has_shape_nth [OF assms(1)] by simp
  ultimately show "P z" using assms(2) i j by simp
qed

text \<open>
  For \<open>L = 1\<close> the spectra \<open>-1, 0, 1\<close> pass the check of lines 46 to 57.
\<close>

lemma spectra_checked_example: "spectra_checked (\<lambda>M. [- 1, 0, 1]) 1"
  by (simp add: spectra_checked_def Let_def allclose_vec_def isclose_def upto.simps numeral_3_eq_3)

section \<open>Entries of the generators\<close>

text \<open>
  Claim C10. For every \<open>L >= 0\<close> whose construction passes its assertions, every entry
  of the constructed \<open>Lx\<close> and \<open>Lz\<close> is real and every entry of the constructed \<open>Ly\<close>
  has real part zero.
\<close>

theorem generator_entries_real_or_imaginary:
  assumes "0 \<le> l" and "spectra_checked eigvalsh l"
  shows "\<exists>sp. SU_init eigvalsh (PyInt l) = Inr sp
    \<and> (\<forall>row\<in>set (Lx sp). \<forall>z\<in>set row. Im z = 0)
    \<and> (\<forall>row\<in>set (Lz sp). \<forall>z\<in>set row. Im z = 0)
    \<and> (\<forall>row\<in>set (Ly sp). \<forall>z\<in>set row. Re z = 0)"
proof -
  have x: "\<forall>row\<in>set (Lx_matrix l). \<forall>z\<in>set row. Im z = 0"
    by (rule entries_allI [where r = "side l" and c = "side l"]) (simp_all add: assms(1) Lx_nth)
  have z: "\<forall>row\<in>set (Lz_matrix l). \<forall>z\<in>set row. Im z = 0"
    by (rule entries_allI [where r = "side l" and c = "side l"]) (simp_all add: assms(1) Lz_nth)
  have y: "\<forall>row\<in>set (Ly_matrix l). \<forall>z\<in>set row. Re z = 0"
    by (rule entries_allI [where r = "side l" and c = "side l"]) (simp_all add: assms(1) Ly_nth)
  show ?thesis
    using x y z by (simp add: SU_init_PyInt assms space_of_def)
qed

theorem generator_entries_real_or_imaginary_witness:
  "\<exists>sp. SU_init (\<lambda>M. [- 1, 0, 1]) (PyInt 1) = Inr sp
    \<and> (\<forall>z\<in>set (concat (Lx sp)). Im z = 0)
    \<and> (\<forall>z\<in>set (concat (Lz sp)). Im z = 0)
    \<and> (\<forall>z\<in>set (concat (Ly sp)). Re z = 0)"
  using generator_entries_real_or_imaginary [OF _ spectra_checked_example] by auto

section \<open>Commutation relations\<close>

lemma has_shape_length: "has_shape A r c \<Longrightarrow> length A = r"
  by (simp add: has_shape_def)

lemma mat_dot_eq:
  assumes "has_shape A r d" "has_shape B d c" "0 < d"
  shows "mat_dot A B = mk_mat r c (\<lambda>i j. \<Sum>k<d. A ! i ! k * B ! k ! j)"
  using has_shape_length [OF assms(1)] has_shape_length [OF assms(2)]
    has_shape_ncols [OF assms(2,3)]
  by (simp add: mat_dot_def)

lemma mat_dot_nth:
  assumes "has_shape A r d" "has_shape B d c" "0 < d" "i < r" "j < c"
  shows "mat_dot A B ! i ! j = (\<Sum>k<d. A ! i ! k * B ! k ! j)"
  using assms(4,5) by (simp add: mat_dot_eq [OF assms(1-3)])

lemma has_shape_mat_dot [simp]:
  assumes "has_shape A r d" "has_shape B d c" "0 < d"
  shows "has_shape (mat_dot A B) r c"
  by (simp add: mat_dot_eq [OF assms])

lemma sum_tridiag:
  fixes f g :: "nat \<Rightarrow> complex"
  assumes "i < d"
  shows "(\<Sum>k<d. if i = Suc k then f k else if k = Suc i then g k else 0)
    = (case i of 0 \<Rightarrow> 0 | Suc m \<Rightarrow> f m) + (if Suc i < d then g (Suc i) else 0)"
proof -
  have "(\<Sum>k<d. if i = Suc k then f k else if k = Suc i then g k else 0)
    = (\<Sum>k<d. (if i = Suc k then f k else 0) + (if k = Suc i then g k else 0))"
    by (rule sum.cong) auto
  also have "\<dots> = (\<Sum>k<d. if i = Suc k then f k else 0) + (\<Sum>k<d. if k = Suc i then g k else 0)"
    by (rule sum.distrib)
  also have "(\<Sum>k<d. if k = Suc i then g k else 0) = (if Suc i < d then g (Suc i) else 0)"
    by simp
  also have "(\<Sum>k<d. if i = Suc k then f k else 0) = (case i of 0 \<Rightarrow> 0 | Suc m \<Rightarrow> f m)"
  proof (cases i)
    case 0
    then show ?thesis by simp
  next
    case (Suc m)
    then have "(\<Sum>k<d. if i = Suc k then f k else 0) = (\<Sum>k<d. if k = m then f k else 0)"
      by (intro sum.cong) auto
    also have "\<dots> = f m" using assms Suc by simp
    finally show ?thesis using Suc by simp
  qed
  finally show ?thesis .
qed

lemma cc_sq: "int k \<le> 2 * l \<Longrightarrow> cc l k * cc l k = of_int ((int k + 1) * (2 * l - int k))"
  by (simp add: cc_def)

lemma ex_row_sum:
  assumes "i < d"
  shows "(\<Sum>k<d. ex l i k * h k) =
    (case i of 0 \<Rightarrow> 0 | Suc m \<Rightarrow> complex_of_real (cc l m / 2) * h m)
    + (if Suc i < d then complex_of_real (cc l i / 2) * h (Suc i) else 0)"
proof -
  have "(\<Sum>k<d. ex l i k * h k) =
    (\<Sum>k<d. if i = Suc k then complex_of_real (cc l k / 2) * h k
            else if k = Suc i then complex_of_real (cc l i / 2) * h k else 0)"
    by (rule sum.cong) (simp_all add: ex_def)
  then show ?thesis by (simp add: sum_tridiag [OF assms])
qed

lemma ey_row_sum:
  assumes "i < d"
  shows "(\<Sum>k<d. ey l i k * h k) =
    (case i of 0 \<Rightarrow> 0 | Suc m \<Rightarrow> - \<i> * complex_of_real (cc l m / 2) * h m)
    + (if Suc i < d then \<i> * complex_of_real (cc l i / 2) * h (Suc i) else 0)"
proof -
  have "(\<Sum>k<d. ey l i k * h k) =
    (\<Sum>k<d. if i = Suc k then - \<i> * complex_of_real (cc l k / 2) * h k
            else if k = Suc i then \<i> * complex_of_real (cc l i / 2) * h k else 0)"
    by (rule sum.cong) (simp_all add: ey_def)
  then show ?thesis by (simp add: sum_tridiag [OF assms])
qed

lemma ez_row_sum:
  assumes "i < d"
  shows "(\<Sum>k<d. ez l i k * h k) = of_int (int i - l) * h i"
proof -
  have "(\<Sum>k<d. ez l i k * h k) = (\<Sum>k<d. if k = i then of_int (int i - l) * h k else 0)"
    by (rule sum.cong) (auto simp: ez_def)
  then show ?thesis using assms by simp
qed

lemma cc_sq_complex:
  assumes "int k \<le> 2 * l"
  shows "complex_of_real (cc l k) * complex_of_real (cc l k) = of_int ((int k + 1) * (2 * l - int k))"
proof -
  have "complex_of_real (cc l k) * complex_of_real (cc l k) = complex_of_real (cc l k * cc l k)"
    by simp
  also have "\<dots> = of_int ((int k + 1) * (2 * l - int k))"
    unfolding cc_sq [OF assms] by simp
  finally show ?thesis .
qed

lemma cc_sq_complex':
  assumes "int k \<le> 2 * l"
  shows "complex_of_real (cc l k) * (complex_of_real (cc l k) * x) = of_int ((int k + 1) * (2 * l - int k)) * x"
  using cc_sq_complex [OF assms] by (simp add: mult.assoc [symmetric] del: of_int_mult of_int_add of_int_diff)

lemma cc_last: "0 \<le> l \<Longrightarrow> i < side l \<Longrightarrow> \<not> Suc i < side l \<Longrightarrow> cc l i = 0"
proof -
  assume "0 \<le> l" "i < side l" "\<not> Suc i < side l"
  then have "int i = 2 * l" by (simp add: side_def)
  then show ?thesis by (simp add: cc_def)
qed

lemma ex_row:
  assumes "0 \<le> l" "i < side l"
  shows "(\<Sum>k< side l. ex l i k * h k) =
    (case i of 0 \<Rightarrow> 0 | Suc m \<Rightarrow> complex_of_real (cc l m / 2) * h m)
    + complex_of_real (cc l i / 2) * h (Suc i)"
  using cc_last [OF assms] by (simp add: ex_row_sum [OF assms(2)])

lemma ey_row:
  assumes "0 \<le> l" "i < side l"
  shows "(\<Sum>k< side l. ey l i k * h k) =
    (case i of 0 \<Rightarrow> 0 | Suc m \<Rightarrow> - \<i> * complex_of_real (cc l m / 2) * h m)
    + \<i> * complex_of_real (cc l i / 2) * h (Suc i)"
  using cc_last [OF assms] by (simp add: ey_row_sum [OF assms(2)])

lemma comm_xy_entry:
  assumes "0 \<le> l" "i < side l" "j < side l"
  shows "(\<Sum>k< side l. ex l i k * ey l k j) - (\<Sum>k< side l. ey l i k * ex l k j) = \<i> * ez l i j"
proof -
  have b: "int i \<le> 2 * l" "int j \<le> 2 * l" using assms by (simp_all add: side_def)
  show ?thesis
    unfolding ex_row [OF assms(1,2)] ey_row [OF assms(1,2)]
    using b
    apply (cases i)
     apply (auto simp: ex_def ey_def ez_def algebra_simps cc_sq_complex cc_sq_complex' split: nat.splits)
    done
qed

lemma comm_yz_entry:
  assumes "0 \<le> l" "i < side l" "j < side l"
  shows "(\<Sum>k< side l. ey l i k * ez l k j) - (\<Sum>k< side l. ez l i k * ey l k j) = \<i> * ex l i j"
proof -
  have b: "int i \<le> 2 * l" "int j \<le> 2 * l" using assms by (simp_all add: side_def)
  show ?thesis
    unfolding ey_row [OF assms(1,2)] ez_row_sum [OF assms(2)]
    using b
    apply (cases i)
     apply (auto simp: ex_def ey_def ez_def field_simps split: nat.splits)
    done
qed

lemma comm_zx_entry:
  assumes "0 \<le> l" "i < side l" "j < side l"
  shows "(\<Sum>k< side l. ez l i k * ex l k j) - (\<Sum>k< side l. ex l i k * ez l k j) = \<i> * ey l i j"
proof -
  have b: "int i \<le> 2 * l" "int j \<le> 2 * l" using assms by (simp_all add: side_def)
  show ?thesis
    unfolding ex_row [OF assms(1,2)] ez_row_sum [OF assms(2)]
    using b
    apply (cases i)
     apply (auto simp: ex_def ey_def ez_def field_simps split: nat.splits)
    done
qed

lemma Lx_ex: "0 \<le> l \<Longrightarrow> i < side l \<Longrightarrow> j < side l \<Longrightarrow> Lx_matrix l ! i ! j = ex l i j"
  by (simp add: Lx_nth ex_def)

lemma Ly_ey: "0 \<le> l \<Longrightarrow> i < side l \<Longrightarrow> j < side l \<Longrightarrow> Ly_matrix l ! i ! j = ey l i j"
  by (simp add: Ly_nth ey_def)

lemma Lz_ez: "0 \<le> l \<Longrightarrow> i < side l \<Longrightarrow> j < side l \<Longrightarrow> Lz_matrix l ! i ! j = ez l i j"
  by (simp add: Lz_nth ez_def)

lemma commutator_eqI:
  assumes "0 < d"
    and A: "has_shape A d d" and B: "has_shape B d d" and C: "has_shape C d d"
    and a: "\<And>i j. i < d \<Longrightarrow> j < d \<Longrightarrow> A ! i ! j = a i j"
    and b: "\<And>i j. i < d \<Longrightarrow> j < d \<Longrightarrow> B ! i ! j = b i j"
    and c: "\<And>i j. i < d \<Longrightarrow> j < d \<Longrightarrow> C ! i ! j = c i j"
    and e: "\<And>i j. i < d \<Longrightarrow> j < d \<Longrightarrow>
      (\<Sum>k<d. a i k * b k j) - (\<Sum>k<d. b i k * a k j) = \<i> * c i j"
  shows "mat_sub (mat_dot A B) (mat_dot B A) = mat_scale \<i> C"
proof (rule mat_eqI [where r = d and c = d])
  show "has_shape (mat_sub (mat_dot A B) (mat_dot B A)) d d"
    using assms(1) A B by simp
  show "has_shape (mat_scale \<i> C) d d" using C by simp
next
  fix i j assume ij: "i < d" "j < d"
  have "mat_dot A B ! i ! j = (\<Sum>k<d. a i k * b k j)"
    unfolding mat_dot_nth [OF A B assms(1) ij] using ij by (intro sum.cong) (simp_all add: a b)
  moreover have "mat_dot B A ! i ! j = (\<Sum>k<d. b i k * a k j)"
    unfolding mat_dot_nth [OF B A assms(1) ij] using ij by (intro sum.cong) (simp_all add: a b)
  moreover have "has_shape (mat_dot A B) d d" "has_shape (mat_dot B A) d d"
    using assms(1) A B by simp_all
  ultimately show "mat_sub (mat_dot A B) (mat_dot B A) ! i ! j = mat_scale \<i> C ! i ! j"
    using ij C by (simp add: mat_sub_nth [where r = d and c = d]
        mat_scale_nth [where r = d and c = d] c e)
qed

text \<open>
  Claim C5. For every \<open>L >= 0\<close> whose construction passes its assertions, the
  constructed generators satisfy \<open>[Lx, Ly] = i Lz\<close>, \<open>[Ly, Lz] = i Lx\<close> and
  \<open>[Lz, Lx] = i Ly\<close>, the commutator \<open>[A, B]\<close> being \<open>A B - B A\<close>.
\<close>

theorem commutation_relations:
  assumes "0 \<le> l" and "spectra_checked eigvalsh l"
  shows "\<exists>sp. SU_init eigvalsh (PyInt l) = Inr sp
    \<and> mat_sub (mat_dot (Lx sp) (Ly sp)) (mat_dot (Ly sp) (Lx sp)) = mat_scale \<i> (Lz sp)
    \<and> mat_sub (mat_dot (Ly sp) (Lz sp)) (mat_dot (Lz sp) (Ly sp)) = mat_scale \<i> (Lx sp)
    \<and> mat_sub (mat_dot (Lz sp) (Lx sp)) (mat_dot (Lx sp) (Lz sp)) = mat_scale \<i> (Ly sp)"
proof -
  note l = assms(1)
  have xy: "mat_sub (mat_dot (Lx_matrix l) (Ly_matrix l)) (mat_dot (Ly_matrix l) (Lx_matrix l))
      = mat_scale \<i> (Lz_matrix l)"
    by (rule commutator_eqI [where d = "side l" and a = "ex l" and b = "ey l" and c = "ez l"])
      (simp_all add: l Lx_ex Ly_ey Lz_ez comm_xy_entry)
  have yz: "mat_sub (mat_dot (Ly_matrix l) (Lz_matrix l)) (mat_dot (Lz_matrix l) (Ly_matrix l))
      = mat_scale \<i> (Lx_matrix l)"
    by (rule commutator_eqI [where d = "side l" and a = "ey l" and b = "ez l" and c = "ex l"])
      (simp_all add: l Lx_ex Ly_ey Lz_ez comm_yz_entry)
  have zx: "mat_sub (mat_dot (Lz_matrix l) (Lx_matrix l)) (mat_dot (Lx_matrix l) (Lz_matrix l))
      = mat_scale \<i> (Ly_matrix l)"
    by (rule commutator_eqI [where d = "side l" and a = "ez l" and b = "ex l" and c = "ey l"])
      (simp_all add: l Lx_ex Ly_ey Lz_ez comm_zx_entry)
  show ?thesis
    using xy yz zx by (simp add: SU_init_PyInt assms space_of_def)
qed

theorem commutation_relations_witness:
  "\<exists>sp. SU_init (\<lambda>M. [- 1, 0, 1]) (PyInt 1) = Inr sp
    \<and> mat_sub (mat_dot (Lx sp) (Ly sp)) (mat_dot (Ly sp) (Lx sp)) = mat_scale \<i> (Lz sp)
    \<and> mat_sub (mat_dot (Ly sp) (Lz sp)) (mat_dot (Lz sp) (Ly sp)) = mat_scale \<i> (Lx sp)
    \<and> mat_sub (mat_dot (Lz sp) (Lx sp)) (mat_dot (Lx sp) (Lz sp)) = mat_scale \<i> (Ly sp)"
  using commutation_relations [OF _ spectra_checked_example] by simp

section \<open>Products of square arrays\<close>

lemma has_shape_mat_dot_sq [simp]:
  "has_shape A d d \<Longrightarrow> has_shape B d d \<Longrightarrow> 0 < d \<Longrightarrow> has_shape (mat_dot A B) d d"
  by (rule has_shape_mat_dot)

lemma has_shape_eye [simp]: "has_shape (eye d) d d"
  by (simp add: eye_def)

lemma eye_nth [simp]: "i < d \<Longrightarrow> j < d \<Longrightarrow> eye d ! i ! j = (if i = j then 1 else 0)"
  by (simp add: eye_def)

lemma has_shape_mat_adj [simp]: "has_shape A d d \<Longrightarrow> 0 < d \<Longrightarrow> has_shape (mat_adj A) d d"
  by (simp add: mat_adj_def)

lemma mat_adj_nth [simp]:
  "has_shape A d d \<Longrightarrow> 0 < d \<Longrightarrow> i < d \<Longrightarrow> j < d \<Longrightarrow> mat_adj A ! i ! j = cnj (A ! j ! i)"
  by (simp add: mat_adj_def mat_conj_nth [where r = d and c = d] mat_T_nth [where r = d and c = d])

lemma mat_dot_assoc:
  assumes d: "0 < d" and A: "has_shape A d d" and B: "has_shape B d d" and C: "has_shape C d d"
  shows "mat_dot (mat_dot A B) C = mat_dot A (mat_dot B C)"
proof (rule mat_eqI [where r = d and c = d])
  show "has_shape (mat_dot (mat_dot A B) C) d d" using assms by simp
  show "has_shape (mat_dot A (mat_dot B C)) d d" using assms by simp
next
  fix i j assume ij: "i < d" "j < d"
  have AB: "has_shape (mat_dot A B) d d" and BC: "has_shape (mat_dot B C) d d"
    using assms by simp_all
  have "mat_dot (mat_dot A B) C ! i ! j = (\<Sum>k<d. (\<Sum>m<d. A ! i ! m * B ! m ! k) * C ! k ! j)"
    unfolding mat_dot_nth [OF AB C d ij]
    by (intro sum.cong) (simp_all add: mat_dot_nth [OF A B d] ij)
  also have "\<dots> = (\<Sum>k<d. \<Sum>m<d. A ! i ! m * (B ! m ! k * C ! k ! j))"
    by (simp add: sum_distrib_right mult.assoc)
  also have "\<dots> = (\<Sum>m<d. \<Sum>k<d. A ! i ! m * (B ! m ! k * C ! k ! j))"
    by (rule sum.swap)
  also have "\<dots> = (\<Sum>m<d. A ! i ! m * (\<Sum>k<d. B ! m ! k * C ! k ! j))"
    by (simp add: sum_distrib_left)
  also have "\<dots> = mat_dot A (mat_dot B C) ! i ! j"
    unfolding mat_dot_nth [OF A BC d ij]
    by (intro sum.cong) (simp_all add: mat_dot_nth [OF B C d] ij)
  finally show "mat_dot (mat_dot A B) C ! i ! j = mat_dot A (mat_dot B C) ! i ! j" .
qed

lemma mat_dot_eye_right:
  assumes d: "0 < d" and A: "has_shape A d d"
  shows "mat_dot A (eye d) = A"
proof (rule mat_eqI [where r = d and c = d])
  show "has_shape (mat_dot A (eye d)) d d" using assms by simp
  show "has_shape A d d" by (rule A)
next
  fix i j assume ij: "i < d" "j < d"
  have "mat_dot A (eye d) ! i ! j = (\<Sum>k<d. if k = j then A ! i ! k else 0)"
    unfolding mat_dot_nth [OF A has_shape_eye d ij]
    by (intro sum.cong) (simp_all add: ij)
  then show "mat_dot A (eye d) ! i ! j = A ! i ! j" using ij by simp
qed

lemma mat_dot_eye_left:
  assumes d: "0 < d" and A: "has_shape A d d"
  shows "mat_dot (eye d) A = A"
proof (rule mat_eqI [where r = d and c = d])
  show "has_shape (mat_dot (eye d) A) d d" using assms by simp
  show "has_shape A d d" by (rule A)
next
  fix i j assume ij: "i < d" "j < d"
  have "mat_dot (eye d) A ! i ! j = (\<Sum>k<d. if k = i then A ! k ! j else 0)"
    unfolding mat_dot_nth [OF has_shape_eye A d ij]
    by (intro sum.cong) (auto simp: ij)
  then show "mat_dot (eye d) A ! i ! j = A ! i ! j" using ij by simp
qed

lemma einsum3_eq_dot:
  assumes d: "0 < d" and A: "has_shape A d d" and B: "has_shape B d d" and C: "has_shape C d d"
  shows "einsum3 A B C = mat_dot (mat_dot A B) C"
proof (rule mat_eqI [where r = d and c = d])
  have len: "length A = d" "length B = d" "length C = d" "ncols C = d"
    using assms has_shape_ncols [OF C d] by (simp_all add: has_shape_length)
  show "has_shape (einsum3 A B C) d d" by (simp add: einsum3_def len)
  show "has_shape (mat_dot (mat_dot A B) C) d d" using assms by simp
  fix i j assume ij: "i < d" "j < d"
  have AB: "has_shape (mat_dot A B) d d" using assms by simp
  have "einsum3 A B C ! i ! j = (\<Sum>m<d. \<Sum>k<d. A ! i ! m * B ! m ! k * C ! k ! j)"
    using ij by (simp add: einsum3_def len)
  also have "\<dots> = (\<Sum>k<d. \<Sum>m<d. A ! i ! m * B ! m ! k * C ! k ! j)"
    by (rule sum.swap)
  also have "\<dots> = (\<Sum>k<d. (\<Sum>m<d. A ! i ! m * B ! m ! k) * C ! k ! j)"
    by (simp add: sum_distrib_right)
  also have "\<dots> = mat_dot (mat_dot A B) C ! i ! j"
    unfolding mat_dot_nth [OF AB C d ij]
    by (intro sum.cong) (simp_all add: mat_dot_nth [OF A B d] ij)
  finally show "einsum3 A B C ! i ! j = mat_dot (mat_dot A B) C ! i ! j" .
qed

lemma mat_adj_dot:
  assumes d: "0 < d" and A: "has_shape A d d" and B: "has_shape B d d"
  shows "mat_adj (mat_dot A B) = mat_dot (mat_adj B) (mat_adj A)"
proof (rule mat_eqI [where r = d and c = d])
  show "has_shape (mat_adj (mat_dot A B)) d d" using assms by simp
  show "has_shape (mat_dot (mat_adj B) (mat_adj A)) d d" using assms by simp
next
  fix i j assume ij: "i < d" "j < d"
  have AB: "has_shape (mat_dot A B) d d" using assms by simp
  have "mat_dot (mat_adj B) (mat_adj A) ! i ! j = (\<Sum>k<d. cnj (B ! k ! i) * cnj (A ! j ! k))"
    unfolding mat_dot_nth [OF has_shape_mat_adj [OF B d] has_shape_mat_adj [OF A d] d ij]
    by (intro sum.cong) (simp_all add: ij A B d mat_adj_nth [where d = d])
  also have "\<dots> = cnj (\<Sum>k<d. A ! j ! k * B ! k ! i)"
    by (simp add: mult.commute)
  also have "\<dots> = mat_adj (mat_dot A B) ! i ! j"
    using ij by (simp add: AB d mat_dot_nth [OF A B d] mat_adj_nth [where d = d])
  finally show "mat_adj (mat_dot A B) ! i ! j = mat_dot (mat_adj B) (mat_adj A) ! i ! j"
    by simp
qed

lemma mat_adj_adj:
  assumes d: "0 < d" and A: "has_shape A d d"
  shows "mat_adj (mat_adj A) = A"
  by (rule mat_eqI [where r = d and c = d])
    (simp_all add: assms mat_adj_nth [where d = d])

lemma has_shape_diag0 [simp]: "has_shape (np_diag zs 0) (length zs) (length zs)"
  using has_shape_np_diag [of zs 0] by simp

lemma diag0_nth [simp]:
  "i < length zs \<Longrightarrow> j < length zs \<Longrightarrow> np_diag zs 0 ! i ! j = (if i = j then zs ! i else 0)"
  by (auto simp: np_diag_nth)

lemma mat_adj_diag0:
  assumes "0 < length zs"
  shows "mat_adj (np_diag zs 0) = np_diag (map cnj zs) 0"
  by (rule mat_eqI [where r = "length zs" and c = "length zs"])
    (use assms in \<open>simp_all add: has_shape_np_diag [of "map cnj zs" 0, simplified]
      mat_adj_nth [where d = "length zs"]\<close>)

lemma diag0_dot:
  assumes "0 < length zs" "length ws = length zs"
  shows "mat_dot (np_diag zs 0) (np_diag ws 0) = np_diag (map2 (*) zs ws) 0"
proof (rule mat_eqI [where r = "length zs" and c = "length zs"])
  let ?d = "length zs"
  have Z: "has_shape (np_diag zs 0) ?d ?d" by simp
  have W: "has_shape (np_diag ws 0) ?d ?d" using has_shape_diag0 [of ws] assms by simp
  show "has_shape (mat_dot (np_diag zs 0) (np_diag ws 0)) ?d ?d"
    using Z W assms(1) by simp
  show "has_shape (np_diag (map2 (*) zs ws) 0) ?d ?d"
    using has_shape_diag0 [of "map2 (*) zs ws"] assms by simp
  fix i j assume ij: "i < ?d" "j < ?d"
  have "mat_dot (np_diag zs 0) (np_diag ws 0) ! i ! j
      = (\<Sum>k<?d. if k = i then zs ! i * (if i = j then ws ! i else 0) else 0)"
    unfolding mat_dot_nth [OF Z W assms(1) ij]
    by (intro sum.cong) (auto simp: ij assms)
  then show "mat_dot (np_diag zs 0) (np_diag ws 0) ! i ! j = np_diag (map2 (*) zs ws) 0 ! i ! j"
    using ij assms by simp
qed

lemma diag0_ones: "np_diag (replicate d 1) 0 = eye d"
  by (rule mat_eqI [where r = d and c = d])
    (simp_all add: has_shape_diag0 [of "replicate d 1", simplified])

section \<open>Rotations\<close>

lemma spectral_eq:
  assumes "0 < d" "has_shape v d d" "length zs = d"
  shows "spectral v zs = mat_dot (mat_dot v (np_diag zs 0)) (mat_adj v)"
  unfolding spectral_def mat_adj_def [symmetric]
  using assms has_shape_diag0 [of zs]
  by (intro einsum3_eq_dot [where d = d]) simp_all

lemma has_shape_spectral:
  assumes "0 < d" "has_shape v d d" "length zs = d"
  shows "has_shape (spectral v zs) d d"
  unfolding spectral_eq [OF assms]
  using assms has_shape_diag0 [of zs] by simp

lemma spectral_dot:
  assumes d: "0 < d" and v: "has_shape v d d" and zs: "length zs = d" and ws: "length ws = d"
    and u: "mat_dot (mat_adj v) v = eye d"
  shows "mat_dot (spectral v zs) (spectral v ws) = spectral v (map2 (*) zs ws)"
proof -
  let ?Z = "np_diag zs 0" and ?W = "np_diag ws 0" and ?a = "mat_adj v"
  have Z: "has_shape ?Z d d" and W: "has_shape ?W d d"
    using has_shape_diag0 [of zs] has_shape_diag0 [of ws] zs ws by simp_all
  have a: "has_shape ?a d d" using v d by simp
  have vZ: "has_shape (mat_dot v ?Z) d d" and Wa: "has_shape (mat_dot ?W ?a) d d"
    using v Z W a d by simp_all
  have "mat_dot (spectral v zs) (spectral v ws)
      = mat_dot (mat_dot (mat_dot v ?Z) ?a) (mat_dot v (mat_dot ?W ?a))"
    by (simp add: spectral_eq [OF d v zs] spectral_eq [OF d v ws] mat_dot_assoc [OF d v W a])
  also have "\<dots> = mat_dot (mat_dot v ?Z) (mat_dot ?a (mat_dot v (mat_dot ?W ?a)))"
    using v Wa d by (intro mat_dot_assoc [OF d vZ a]) simp
  also have "mat_dot ?a (mat_dot v (mat_dot ?W ?a)) = mat_dot (mat_dot ?a v) (mat_dot ?W ?a)"
    by (rule mat_dot_assoc [OF d a v Wa, symmetric])
  also have "\<dots> = mat_dot ?W ?a"
    unfolding u by (rule mat_dot_eye_left [OF d Wa])
  also have "mat_dot (mat_dot v ?Z) (mat_dot ?W ?a) = mat_dot v (mat_dot ?Z (mat_dot ?W ?a))"
    by (rule mat_dot_assoc [OF d v Z Wa])
  also have "mat_dot ?Z (mat_dot ?W ?a) = mat_dot (mat_dot ?Z ?W) ?a"
    by (rule mat_dot_assoc [OF d Z W a, symmetric])
  also have "mat_dot ?Z ?W = np_diag (map2 (*) zs ws) 0"
    using d zs ws by (intro diag0_dot) simp_all
  also have "mat_dot v (mat_dot (np_diag (map2 (*) zs ws) 0) ?a) = spectral v (map2 (*) zs ws)"
  proof -
    have len: "length (map2 (*) zs ws) = d" using zs ws by simp
    have D: "has_shape (np_diag (map2 (*) zs ws) 0) d d"
      using has_shape_diag0 [of "map2 (*) zs ws"] len by simp
    show ?thesis
      unfolding spectral_eq [OF d v len] by (rule mat_dot_assoc [OF d v D a, symmetric])
  qed
  finally show ?thesis .
qed

lemma spectral_ones:
  assumes d: "0 < d" and v: "has_shape v d d" and u: "mat_dot v (mat_adj v) = eye d"
  shows "spectral v (replicate d 1) = eye d"
  using spectral_eq [OF d v, of "replicate d 1"] by (simp add: diag0_ones mat_dot_eye_right [OF d v] u)

lemma spectral_adj:
  assumes d: "0 < d" and v: "has_shape v d d" and zs: "length zs = d"
  shows "mat_adj (spectral v zs) = spectral v (map cnj zs)"
proof -
  let ?Z = "np_diag zs 0" and ?a = "mat_adj v"
  have Z: "has_shape ?Z d d" using has_shape_diag0 [of zs] zs by simp
  have Zc: "has_shape (np_diag (map cnj zs) 0) d d"
    using has_shape_diag0 [of "map cnj zs"] zs by simp
  have a: "has_shape ?a d d" using v d by simp
  have vZ: "has_shape (mat_dot v ?Z) d d" using v Z d by simp
  have "mat_adj (spectral v zs) = mat_dot (mat_adj ?a) (mat_adj (mat_dot v ?Z))"
    unfolding spectral_eq [OF d v zs] by (rule mat_adj_dot [OF d vZ a])
  also have "\<dots> = mat_dot v (mat_dot (mat_adj ?Z) ?a)"
    by (simp add: mat_adj_adj [OF d v] mat_adj_dot [OF d v Z])
  also have "mat_adj ?Z = np_diag (map cnj zs) 0"
    using d zs by (intro mat_adj_diag0) simp
  also have "mat_dot v (mat_dot (np_diag (map cnj zs) 0) ?a) = spectral v (map cnj zs)"
    using spectral_eq [OF d v, of "map cnj zs"] zs
    by (simp add: mat_dot_assoc [OF d v Zc a])
  finally show ?thesis .
qed

lemma phase_cnj:
  "cnj (exp (- (\<i> * complex_of_real a * complex_of_real x))) = exp (\<i> * complex_of_real a * complex_of_real x)"
proof -
  have "exp (- (\<i> * complex_of_real a * complex_of_real x)) = cis (- (a * x))"
    by (simp add: cis_conv_exp mult.assoc)
  moreover have "exp (\<i> * complex_of_real a * complex_of_real x) = cis (a * x)"
    by (simp add: cis_conv_exp mult.assoc)
  ultimately show ?thesis by (simp add: cis_cnj)
qed

lemma phases_cancel:
  "map2 (*) (map (\<lambda>x. exp (- (\<i> * complex_of_real a * complex_of_real x))) e)
            (map (\<lambda>x. exp (\<i> * complex_of_real a * complex_of_real x)) e) = replicate (length e) 1"
  by (induction e) (simp_all add: exp_add [symmetric])

lemma spectral_rotation_unitary:
  assumes d: "0 < d" and v: "has_shape v d d" and e: "length e = d"
    and u1: "mat_dot v (mat_adj v) = eye d" and u2: "mat_dot (mat_adj v) v = eye d"
  shows "mat_dot (spectral v (map (\<lambda>x. exp (- \<i> * complex_of_real a * complex_of_real x)) e))
      (mat_adj (spectral v (map (\<lambda>x. exp (- \<i> * complex_of_real a * complex_of_real x)) e)))
    = eye d"
proof -
  let ?zs = "map (\<lambda>x. exp (- \<i> * complex_of_real a * complex_of_real x)) e"
  let ?ws = "map (\<lambda>x. exp (\<i> * complex_of_real a * complex_of_real x)) e"
  have zs: "length ?zs = d" and ws: "length ?ws = d" using e by simp_all
  have "map cnj ?zs = ?ws" by (simp add: phase_cnj)
  then have "mat_adj (spectral v ?zs) = spectral v ?ws"
    by (simp only: spectral_adj [OF d v zs])
  then show ?thesis
    using spectral_dot [OF d v zs ws u2] spectral_ones [OF d v u1] e
    by (simp add: phases_cancel)
qed

text \<open>The thresholds of float64, and the numbers that \<open>f64\<close> leaves finite.\<close>

lemma f64_tiny_pos: "0 < f64_tiny"
  by (simp add: f64_tiny_def)

lemma f64_tiny_less_1: "f64_tiny < 1"
  by (simp add: f64_tiny_def)

lemma f64_over_gt_1: "1 < f64_over"
  by (simp add: f64_over_def)

lemma f64_in_range: "\<bar>x\<bar> < f64_over \<Longrightarrow> f64 x = Finite (if \<bar>x\<bar> \<le> f64_tiny then 0 else x)"
  by (auto simp: f64_def)

lemma f64_eq_Finite: "f64_tiny < \<bar>r\<bar> \<Longrightarrow> \<bar>r\<bar> < f64_over \<Longrightarrow> f64 r = Finite r"
  by (auto simp: f64_def)

lemma f64_finite: "\<bar>r\<bar> < f64_over \<Longrightarrow> \<exists>y. f64 r = Finite y \<and> \<bar>y\<bar> \<le> \<bar>r\<bar>"
  by (auto simp: f64_in_range)

lemma fl_ge_f64_0: "0 \<le> r \<Longrightarrow> fl_ge (f64 r) 0"
  using f64_over_gt_1 by (auto simp: f64_def)

lemma fl_ge_f64: "f64_tiny < r' \<Longrightarrow> r' \<le> r \<Longrightarrow> fl_ge (f64 r) r'"
  using f64_over_gt_1 f64_tiny_pos by (auto simp: f64_def)

lemma fl_ge_f64': "r' = 0 \<or> f64_tiny < r' \<Longrightarrow> 0 \<le> r \<Longrightarrow> r' \<le> r \<Longrightarrow> fl_ge (f64 r) r'"
  using fl_ge_f64_0 fl_ge_f64 by blast

lemma fl_ge_add:
  "fl_ge a r \<Longrightarrow> fl_ge b 0 \<Longrightarrow> r = 0 \<or> f64_tiny < r \<Longrightarrow> fl_ge (fl_add a b) r"
  using f64_tiny_pos by (cases a; cases b) (auto intro!: fl_ge_f64')

lemma fl_ge_add':
  "fl_ge a 0 \<Longrightarrow> fl_ge b r \<Longrightarrow> r = 0 \<or> f64_tiny < r \<Longrightarrow> fl_ge (fl_add a b) r"
  using f64_tiny_pos by (cases a; cases b) (auto intro!: fl_ge_f64')

lemma fl_ge_foldl:
  "fl_ge acc r \<Longrightarrow> r = 0 \<or> f64_tiny < r \<Longrightarrow> \<forall>a\<in>set v. fl_ge a 0 \<Longrightarrow> fl_ge (foldl fl_add acc v) r"
  by (induction v arbitrary: acc) (simp_all add: fl_ge_add)

lemma fl_ge_foldl_mem:
  "fl_ge acc 0 \<Longrightarrow> \<forall>a\<in>set v. fl_ge a 0 \<Longrightarrow> b \<in> set v \<Longrightarrow> fl_ge b r \<Longrightarrow> f64_tiny < r \<Longrightarrow>
   fl_ge (foldl fl_add acc v) r"
proof (induction v arbitrary: acc)
  case Nil
  then show ?case by simp
next
  case (Cons c v)
  show ?case
  proof (cases "b = c")
    case True
    then have "fl_ge (fl_add acc c) r"
      using Cons.prems by (intro fl_ge_add') simp_all
    then show ?thesis
      using Cons.prems by (simp add: fl_ge_foldl)
  next
    case False
    moreover have "fl_ge (fl_add acc c) 0"
      using Cons.prems by (intro fl_ge_add) simp_all
    ultimately show ?thesis
      using Cons.prems Cons.IH [of "fl_add acc c"] by simp
  qed
qed

text \<open>
  The sum of the squares of a vector of numbers is at least every square that does not
  underflow, and its square root at least the absolute value of that component.
\<close>

lemma fl_ge_sum_squares:
  assumes "t \<in> set ts" and "f64_tiny < t * t"
  shows "fl_ge (fl_sum (map (\<lambda>x. f64 (x * x)) ts)) (t * t)"
  unfolding fl_sum_def
proof (rule fl_ge_foldl_mem [where b = "f64 (t * t)"])
  show "fl_ge (Finite 0) 0" by simp
  show "\<forall>a\<in>set (map (\<lambda>x. f64 (x * x)) ts). fl_ge a 0" by (auto intro: fl_ge_f64_0)
  show "f64 (t * t) \<in> set (map (\<lambda>x. f64 (x * x)) ts)" using assms(1) by auto
  show "fl_ge (f64 (t * t)) (t * t)" using assms(2) by (intro fl_ge_f64) simp_all
  show "f64_tiny < t * t" by (rule assms(2))
qed

lemma sqrt_above_tiny: "f64_tiny < r \<Longrightarrow> f64_tiny < sqrt r"
proof -
  assume r: "f64_tiny < r"
  have "f64_tiny * f64_tiny \<le> f64_tiny * 1"
    using f64_tiny_pos f64_tiny_less_1 by (intro mult_left_mono) simp_all
  then have "f64_tiny\<^sup>2 < r" using r by (simp add: power2_eq_square)
  then show ?thesis by (rule real_less_rsqrt)
qed

lemma fl_ge_sqrt: "fl_ge a r \<Longrightarrow> f64_tiny < r \<Longrightarrow> fl_ge (fl_sqrt a) (sqrt r)"
  using f64_tiny_pos by (cases a) (auto intro!: fl_ge_f64 sqrt_above_tiny)

lemma fl_div_finite:
  assumes "fl_ge d m" and "0 < m" and "\<bar>x\<bar> \<le> m"
  shows "\<exists>y. fl_div (Finite x) d = Finite y \<and> \<bar>y\<bar> \<le> 1"
proof (cases d)
  case (Finite s)
  then have s: "m \<le> s" using assms(1) by simp
  then have r: "\<bar>x / s\<bar> \<le> 1" using assms(2,3) by simp
  then have "\<bar>x / s\<bar> < f64_over" using f64_over_gt_1 by linarith
  then obtain y where y: "f64 (x / s) = Finite y" "\<bar>y\<bar> \<le> \<bar>x / s\<bar>"
    using f64_finite by blast
  then have "\<bar>y\<bar> \<le> 1" using r by linarith
  moreover have "fl_div (Finite x) d = Finite y" using Finite s assms(2) y(1) by simp
  ultimately show ?thesis by blast
qed (use assms in simp_all)

lemma normalized_component_finite:
  assumes "\<exists>t\<in>set ts. f64_tiny < t * t" and "u \<in> set ts" and "\<bar>x\<bar> \<le> \<bar>u\<bar>"
  shows "\<exists>y. fl_div (Finite x) (fl_sqrt (fl_sum (map (\<lambda>x. f64 (x * x)) ts))) = Finite y \<and> \<bar>y\<bar> \<le> 1"
proof -
  let ?D = "fl_sqrt (fl_sum (map (\<lambda>x. f64 (x * x)) ts))"
  have D: "fl_ge ?D \<bar>t\<bar>" if "t \<in> set ts" "f64_tiny < t * t" for t
    using fl_ge_sqrt [OF fl_ge_sum_squares [OF that] that(2)] by simp
  show ?thesis
  proof (cases "f64_tiny < u * u")
    case True
    then have "0 < \<bar>u\<bar>" using f64_tiny_pos by (cases "u = 0") simp_all
    then show ?thesis using fl_div_finite [OF D [OF assms(2) True] _ assms(3)] by simp
  next
    case False
    from assms(1) obtain t where t: "t \<in> set ts" "f64_tiny < t * t" by blast
    then have "u * u \<le> t * t" using False by simp
    then have "\<bar>u\<bar> \<le> \<bar>t\<bar>" by (simp add: abs_le_square_iff power2_eq_square)
    then have "\<bar>x\<bar> \<le> \<bar>t\<bar>" using assms(3) by linarith
    moreover have "0 < \<bar>t\<bar>" using t(2) f64_tiny_pos by (cases "t = 0") simp_all
    ultimately show ?thesis using fl_div_finite [OF D [OF t]] by simp
  qed
qed

lemma map_Finite_ex:
  "\<forall>t\<in>set ts. \<exists>y. f t = Finite y \<Longrightarrow> \<exists>ys. map f ts = map Finite ys"
proof (induction ts)
  case Nil
  then show ?case by simp
next
  case (Cons t ts)
  then obtain y ys where "f t = Finite y" "map f ts = map Finite ys" by auto
  then have "map f (t # ts) = map Finite (y # ys)" by simp
  then show ?case by blast
qed

text \<open>Line 72 on the axes of \<open>normalizable\<close>: every component is a number.\<close>

lemma normalize_Float64_finite:
  assumes "\<forall>x\<in>set xs. \<bar>x\<bar> < f64_over" and "\<exists>x\<in>set xs. f64_tiny < x * x"
  shows "\<exists>ys. normalize (Float64 xs) = map Finite ys"
proof -
  define ts where "ts = map (\<lambda>x. if \<bar>x\<bar> \<le> f64_tiny then 0 else x) xs"
  have v: "map f64 xs = map Finite ts"
    using assms(1) by (simp add: ts_def f64_in_range)
  from assms(2) obtain x where x: "x \<in> set xs" "f64_tiny < x * x" by blast
  have "\<not> \<bar>x\<bar> \<le> f64_tiny"
  proof
    assume a: "\<bar>x\<bar> \<le> f64_tiny"
    then have "\<bar>x\<bar> * \<bar>x\<bar> \<le> f64_tiny * 1"
      using f64_tiny_less_1 by (intro mult_mono) simp_all
    then show False using x(2) by (simp add: abs_mult_self_eq)
  qed
  then have "x \<in> set ts" using x(1) by (force simp: ts_def)
  then have ex: "\<exists>t\<in>set ts. f64_tiny < t * t" using x(2) by blast
  let ?D = "fl_sqrt (fl_sum (map (\<lambda>x. f64 (x * x)) ts))"
  have "\<forall>t\<in>set ts. \<exists>y. fl_div (Finite t) ?D = Finite y"
    using normalized_component_finite [OF ex _ order_refl] by blast
  then obtain ys where "map (\<lambda>t. fl_div (Finite t) ?D) ts = map Finite ys"
    using map_Finite_ex [of ts "\<lambda>t. fl_div (Finite t) ?D"] by blast
  then have "normalize (Float64 xs) = map Finite ys"
    by (simp add: normalize_def v comp_def)
  then show ?thesis by blast
qed

lemma sint64_range: "\<bar>real_of_int (sint (n :: 64 word))\<bar> < f64_over"
proof -
  have "- (2 ^ 63) \<le> sint n" "sint n < 2 ^ 63"
    using sint_ge [of n] sint_lt [of n] by simp_all
  then have "\<bar>sint n\<bar> \<le> 2 ^ 63" by linarith
  then have "real_of_int \<bar>sint n\<bar> \<le> real_of_int (2 ^ 63)" by (simp only: of_int_le_iff)
  then have "\<bar>real_of_int (sint n)\<bar> \<le> 2 ^ 63" by (simp del: of_int_sint)
  moreover have "(2 :: real) ^ 63 < f64_over" by (simp add: f64_over_def)
  ultimately show ?thesis by linarith
qed

lemma normalize_Int64_finite:
  assumes "0 < sint (foldl (+) 0 (map (\<lambda>n. n * n) ns))"
  shows "\<exists>ys. normalize (Int64 ns) = map Finite ys"
proof -
  define s where "s = real_of_int (sint (foldl (+) 0 (map (\<lambda>n. n * n) ns)))"
  have "1 \<le> sint (foldl (+) 0 (map (\<lambda>n. n * n) ns))" using assms by simp
  then have "real_of_int 1 \<le> real_of_int (sint (foldl (+) 0 (map (\<lambda>n. n * n) ns)))"
    by (simp only: of_int_le_iff)
  then have s: "1 \<le> s" by (simp add: s_def del: of_int_sint)
  then have "fl_ge (fl_sqrt (Finite s)) 1"
    using f64_tiny_less_1 by (auto intro!: fl_ge_f64)
  then obtain d where d: "fl_sqrt (Finite s) = PosInf \<or> fl_sqrt (Finite s) = Finite d \<and> 1 \<le> d"
    by (cases "fl_sqrt (Finite s)") auto
  have "\<exists>y. fl_div (Finite (real_of_int (sint n))) (fl_sqrt (Finite s)) = Finite y" for n :: "64 word"
  proof -
    have "\<bar>real_of_int (sint n) / d\<bar> \<le> \<bar>real_of_int (sint n)\<bar>" if "1 \<le> d"
    proof -
      have "\<bar>real_of_int (sint n)\<bar> / d \<le> \<bar>real_of_int (sint n)\<bar> / 1"
        using that by (intro divide_left_mono) simp_all
      then show ?thesis using that by simp
    qed
    then have "\<bar>real_of_int (sint n) / d\<bar> < f64_over" if "1 \<le> d"
      using that sint64_range [of n] by fastforce
    then show ?thesis
      using d f64_finite [of "real_of_int (sint n) / d"] by auto
  qed
  then obtain ys where "map (\<lambda>n. fl_div (Finite (real_of_int (sint n))) (fl_sqrt (Finite s))) ns = map Finite ys"
    using map_Finite_ex [of ns "\<lambda>n. fl_div (Finite (real_of_int (sint n))) (fl_sqrt (Finite s))"] by blast
  then have "normalize (Int64 ns) = map Finite ys"
    by (simp add: normalize_def s_def Let_def)
  then show ?thesis by blast
qed

lemma normalize_finite:
  assumes "len ax = 3" and "normalizable ax"
  shows "\<exists>x y z. normalize ax = [Finite x, Finite y, Finite z]"
proof -
  have "\<exists>ys. normalize ax = map Finite ys"
    using assms(2) normalize_Float64_finite normalize_Int64_finite
    by (cases ax) (simp_all add: normalizable_def)
  then obtain ys where ys: "normalize ax = map Finite ys" by blast
  then have "length ys = 3" using assms(1) length_normalize [of ax] by simp
  then obtain x y z where "ys = [x, y, z]"
    by (auto simp: length_Suc_conv numeral_3_eq_3)
  then show ?thesis using ys by simp
qed

text \<open>The generator along a real axis is a Hermitian array of side \<open>2L + 1\<close>.\<close>

lemma has_shape_axis_generator:
  assumes l: "0 \<le> l"
  shows "\<exists>M. axis_generator (space_of l) (Finite x) (Finite y) (Finite z) = Fin M
    \<and> has_shape M (side l) (side l) \<and> mat_adj M = M"
proof -
  let ?d = "side l"
  let ?X = "mat_scale (complex_of_real x) (Lx_matrix l)"
  let ?Y = "mat_scale (complex_of_real y) (Ly_matrix l)"
  let ?Z = "mat_scale (complex_of_real z) (Lz_matrix l)"
  let ?M = "mat_add (mat_add ?X ?Y) ?Z"
  have X: "has_shape ?X ?d ?d" and Y: "has_shape ?Y ?d ?d" and Z: "has_shape ?Z ?d ?d"
    using l by simp_all
  have XY: "has_shape (mat_add ?X ?Y) ?d ?d" using X Y by simp
  have M: "has_shape ?M ?d ?d" using XY Z by simp
  have entry: "?M ! i ! j = complex_of_real x * ex l i j + complex_of_real y * ey l i j
      + complex_of_real z * ez l i j" if "i < ?d" "j < ?d" for i j
    using that l
    by (simp add: mat_add_nth [OF XY Z] mat_add_nth [OF X Y]
        mat_scale_nth [where r = ?d and c = ?d] Lx_ex Ly_ey Lz_ez)
  have "mat_adj ?M = ?M"
  proof (rule mat_eqI [where r = ?d and c = ?d])
    show "has_shape (mat_adj ?M) ?d ?d" using M l by simp
    show "has_shape ?M ?d ?d" by (rule M)
  next
    fix i j assume ij: "i < ?d" "j < ?d"
    have "cnj (ex l j i) = ex l i j" "cnj (ey l j i) = ey l i j" "cnj (ez l j i) = ez l i j"
      by (auto simp: ex_def ey_def ez_def)
    then show "mat_adj ?M ! i ! j = ?M ! i ! j"
      using ij l by (simp add: mat_adj_nth [OF M] entry)
  qed
  then show ?thesis using M by (simp add: axis_generator_def space_of_def)
qed

lemma rotation_finite:
  assumes l: "0 \<le> l" and eigh: "eigh_unitary eigh (side l)"
  shows "\<exists>e v. rotation eigh (space_of l) (Finite a) [Finite x, Finite y, Finite z]
        = Inr (Fin (spectral v (map (\<lambda>t. exp (- \<i> * complex_of_real a * complex_of_real t)) e)))
      \<and> eigh (axis_generator (space_of l) (Finite x) (Finite y) (Finite z)) = Inr (Fin (e, v))
      \<and> length e = side l \<and> has_shape v (side l) (side l)
      \<and> mat_dot v (mat_adj v) = eye (side l) \<and> mat_dot (mat_adj v) v = eye (side l)"
proof -
  obtain M where M: "axis_generator (space_of l) (Finite x) (Finite y) (Finite z) = Fin M"
      "has_shape M (side l) (side l)" "mat_adj M = M"
    using has_shape_axis_generator [OF l] by blast
  obtain e v where ev: "eigh (Fin M) = Inr (Fin (e, v))" "length e = side l"
      "has_shape v (side l) (side l)" "mat_dot v (mat_adj v) = eye (side l)"
      "mat_dot (mat_adj v) v = eye (side l)"
    using eigh M(2,3) unfolding eigh_unitary_def by blast
  show ?thesis
    using ev by (intro exI [of _ e] exI [of _ v]) (simp add: rotation_def M(1) spectral_def)
qed


lemma eye_unitary: "0 < d \<Longrightarrow> mat_dot (eye d) (mat_adj (eye d)) = eye d \<and> mat_dot (mat_adj (eye d)) (eye d) = eye d"
proof -
  assume d: "0 < d"
  have "mat_adj (eye d) = eye d"
    by (rule mat_eqI [where r = d and c = d]) (auto simp: d mat_adj_nth [where d = d])
  then show ?thesis by (simp add: mat_dot_eye_left d)
qed

lemma eigh_diagonal_unitary: "0 < d \<Longrightarrow> eigh_unitary eigh_diagonal d"
  unfolding eigh_unitary_def
  by (auto simp: eigh_diagonal_def has_shape_length eye_unitary)


text \<open>
  The claim itself fails on an axis that is not zero. The square of \<open>1e-200\<close> underflows
  to zero, so that line 72 divides by zero; the square of the int64 \<open>3037000500\<close> wraps
  around to a negative number, whose square root is NaN. In both cases \<open>_rotation\<close> is
  called on an axis that is not a vector of numbers and returns no unitary array: an
  array that holds NaN, or the \<open>LinAlgError\<close> of \<open>np.linalg.eigh\<close>.
\<close>

lemma normalize_underflow:
  assumes "f64_tiny < t" and "t < f64_over" and "t * t \<le> f64_tiny"
  shows "normalize (Float64 [t, 0, 0]) = [PosInf, NotANumber, NotANumber]"
proof -
  have t: "0 < t" using assms(1) f64_tiny_pos by linarith
  then have x: "f64 t = Finite t" using assms(1,2) by (simp add: f64_def)
  have xx: "f64 (t * t) = Finite 0" using assms(3) t by (simp add: f64_def)
  show ?thesis using t by (simp add: normalize_def Let_def fl_sum_3 x xx)
qed


section \<open>Reflections\<close>

text \<open>A normal along the z axis: the cross product is zero and the axis is \<open>0 / 0\<close>.\<close>

lemma normalize_z: "normalize (Float64 [0, 0, 1]) = [Finite 0, Finite 0, Finite 1]"
  by (simp add: normalize_def Let_def fl_sum_3)

lemma vdot_3:
  "vdot [a0, a1, a2] [b0, b1, b2] =
    fl_add (fl_add (fl_add (Finite 0) (fl_mul a0 b0)) (fl_mul a1 b1)) (fl_mul a2 b2)"
  by (simp add: vdot_def fl_sum_def)

lemma np_cross_3:
  "np_cross [a0, a1, a2] [b0, b1, b2] =
    [fl_sub (fl_mul a1 b2) (fl_mul a2 b1), fl_sub (fl_mul a2 b0) (fl_mul a0 b2),
     fl_sub (fl_mul a0 b1) (fl_mul a1 b0)]"
  by (simp add: np_cross_def)

lemma reflection_axis_degenerate:
  "reflection_axis [Finite 0, Finite 0, Finite 1] = [NotANumber, NotANumber, NotANumber]"
  by (simp add: reflection_axis_def Let_def np_cross_3 vdot_3 fl_sub_def)

lemma reflection_angle_degenerate:
  "reflection_angle [Finite 0, Finite 0, Finite 1] = Finite 1"
  by (simp add: reflection_angle_def Let_def vdot_3 fl_sum_3)

lemma rotation_nan_axis:
  "rotation eigh self (Finite a) [NotANumber, NotANumber, NotANumber] =
    (case eigh NaN of
       Inl err \<Rightarrow> Inl err
     | Inr NaN \<Rightarrow> Inr NaN
     | Inr (Fin (e, v)) \<Rightarrow>
         Inr (Fin (spectral v (map (\<lambda>x. exp (- \<i> * complex_of_real a * complex_of_real x)) e))))"
  by (simp add: rotation_def axis_generator_def spectral_def split: sum.splits np.splits)

lemma csqrt2_sq [simp]: "complex_of_real (sqrt 2) * complex_of_real (sqrt 2) = 2"
proof -
  have "complex_of_real (sqrt 2) * complex_of_real (sqrt 2) = complex_of_real (sqrt 2 * sqrt 2)"
    by (simp only: of_real_mult)
  then show ?thesis by simp
qed

lemma csqrt2_sq' [simp]: "complex_of_real (sqrt 2) * (complex_of_real (sqrt 2) * z) = 2 * z"
  using csqrt2_sq by (simp only: mult.assoc [symmetric])

lemma Lx_matrix_1:
  "Lx_matrix 1 = map (map complex_of_real)
     [[0, 1 / sqrt 2, 0], [1 / sqrt 2, 0, 1 / sqrt 2], [0, 1 / sqrt 2, 0]]"
  apply (simp add: Lx_matrix_def Lp_matrix_def Lm_matrix_def np_diag_def mk_mat_def mat_add_def mat_scale_def
      upto.simps upt_conv_Cons Let_def field_simps)
  done

lemma has_shape_Vx1: "has_shape Vx1 3 3"
  by (simp add: Vx1_def has_shape_def)

lemma sum_lessThan_3: "(\<Sum>k<(3::nat). f k) = f 0 + f 1 + (f 2 :: complex)"
  by (simp add: numeral_3_eq_3 numeral_2_eq_2)

lemma Vx1_unitary:
  "mat_dot Vx1 (mat_adj Vx1) = eye 3" "mat_dot (mat_adj Vx1) Vx1 = eye 3"
  by (simp_all add: Vx1_def mat_dot_def mat_adj_def mat_T_def mat_conj_def mk_mat_def ncols_def eye_def
      upt_conv_Cons sum_lessThan_3 field_simps)

text \<open>The instance is exact on \<open>Lx\<close>: \<open>Lx v = v diag(-1, 0, 1)\<close>.\<close>

lemma axis_generator_x:
  assumes "0 \<le> l"
  shows "axis_generator (space_of l) (Finite 1) (Finite 0) (Finite 0) = Fin (Lx_matrix l)"
proof -
  let ?d = "side l"
  have x: "has_shape (mat_scale 1 (Lx_matrix l)) ?d ?d"
    and y: "has_shape (mat_scale 0 (Ly_matrix l)) ?d ?d"
    and z: "has_shape (mat_scale 0 (Lz_matrix l)) ?d ?d"
    using assms by simp_all
  have xy: "has_shape (mat_add (mat_scale 1 (Lx_matrix l)) (mat_scale 0 (Ly_matrix l))) ?d ?d"
    using x y by simp
  have "mat_add (mat_add (mat_scale 1 (Lx_matrix l)) (mat_scale 0 (Ly_matrix l)))
      (mat_scale 0 (Lz_matrix l)) = Lx_matrix l"
  proof (rule mat_eqI [where r = ?d and c = ?d])
    show "has_shape (mat_add (mat_add (mat_scale 1 (Lx_matrix l)) (mat_scale 0 (Ly_matrix l)))
      (mat_scale 0 (Lz_matrix l))) ?d ?d"
      using xy z by simp
    show "has_shape (Lx_matrix l) ?d ?d" using assms by simp
  next
    fix i j assume "i < ?d" "j < ?d"
    then show "mat_add (mat_add (mat_scale 1 (Lx_matrix l)) (mat_scale 0 (Ly_matrix l)))
      (mat_scale 0 (Lz_matrix l)) ! i ! j = Lx_matrix l ! i ! j"
      using assms
      by (simp add: mat_add_nth [OF xy z] mat_add_nth [OF x y]
          mat_scale_nth [where r = ?d and c = ?d])
  qed
  then show ?thesis by (simp add: axis_generator_def space_of_def)
qed

lemma eigh_x1_exact: "mat_dot (Lx_matrix 1) Vx1 = mat_dot Vx1 (np_diag [- 1, 0, 1] 0)"
  by (simp add: Lx_matrix_1 Vx1_def mat_dot_def np_diag_def mk_mat_def ncols_def
      upt_conv_Cons sum_lessThan_3 field_simps)

lemma eigh_x1_unitary: "eigh_unitary eigh_x1 3"
  by (simp add: eigh_unitary_def eigh_x1_def has_shape_Vx1 Vx1_unitary)

lemma gen_op_Sigma:
  assumes "len n = 3" and "\<bar>ang\<bar> < 2 * np_pi"
  shows "gen_op eigh sp ang n ''Sigma'' =
    ([], case reflection eigh sp (normalize n) of
           Inl err \<Rightarrow> Inl err | Inr S \<Rightarrow> Inr (Array S))"
  using assms by (simp add: gen_op_def gen_op_check_eq)

lemma np_pi_pos [simp]: "0 < np_pi"
  by (simp add: np_pi_def)

lemma unit_vec_3:
  "unit_vec [x, y, z] = [x / sqrt (x * x + y * y + z * z), y / sqrt (x * x + y * y + z * z),
     z / sqrt (x * x + y * y + z * z)]"
  by (simp add: unit_vec_def add.assoc)

lemma space_of_sel [simp]:
  "L (space_of l) = l" "Lx (space_of l) = Lx_matrix l" "Ly (space_of l) = Ly_matrix l"
  "Lz (space_of l) = Lz_matrix l" "SigmaXY (space_of l) = SigmaXY_matrix l"
  by (simp_all add: space_of_def)

lemma phases_at_0: "map (\<lambda>x. exp (- \<i> * complex_of_real 0 * complex_of_real x)) e = replicate (length e) 1"
  by (induction e) simp_all

lemma phases_minus_pi_half:
  "map (\<lambda>x. exp (- \<i> * complex_of_real (- (pi / 2)) * complex_of_real x)) [- 1, 0, 1] = [- \<i>, 1, \<i>]"
proof -
  have "exp (- (\<i> * complex_of_real pi / 2)) = cis (- (pi / 2))"
    by (simp add: cis_conv_exp)
  moreover have "exp (\<i> * complex_of_real pi / 2) = cis (pi / 2)"
    by (simp add: cis_conv_exp)
  ultimately show ?thesis by simp
qed

lemma phases_pi_half:
  "map (\<lambda>x. exp (- \<i> * complex_of_real (pi / 2) * complex_of_real x)) [- 1, 0, 1] = [\<i>, 1, - \<i>]"
proof -
  have "exp (- (\<i> * complex_of_real pi / 2)) = cis (- (pi / 2))"
    by (simp add: cis_conv_exp)
  moreover have "exp (\<i> * complex_of_real pi / 2) = cis (pi / 2)"
    by (simp add: cis_conv_exp)
  ultimately show ?thesis by simp
qed

lemma rotation_x1:
  "rotation eigh_x1 (space_of 1) (Finite a) [Finite 1, Finite 0, Finite 0] =
    Inr (Fin (spectral Vx1 (map (\<lambda>x. exp (- \<i> * complex_of_real a * complex_of_real x)) [- 1, 0, 1])))"
  by (simp add: rotation_def axis_generator_x eigh_x1_def spectral_def)

lemma SigmaXY_matrix_1: "SigmaXY_matrix 1 = [[1, 0, 0], [0, - 1, 0], [0, 0, 1]]"
  by (simp add: SigmaXY_matrix_def np_diag_def mk_mat_def upto.simps upt_conv_Cons Let_def)

text \<open>
  For \<open>L = 1\<close> and the rotations by a quarter turn about the x axis, the two orders of
  the product agree: the array has the entry 0 at \<open>(0, 0)\<close>.
\<close>

lemma quarter_turn_x1:
  "einsum3 (spectral Vx1 [- \<i>, 1, \<i>]) (SigmaXY_matrix 1) (spectral Vx1 [\<i>, 1, - \<i>])
    = [[0, 0, - 1], [0, 1, 0], [- 1, 0, 0]]"
  "einsum3 (spectral Vx1 [\<i>, 1, - \<i>]) (SigmaXY_matrix 1) (spectral Vx1 [- \<i>, 1, \<i>])
    = [[0, 0, - 1], [0, 1, 0], [- 1, 0, 0]]"
  by (simp_all add: SigmaXY_matrix_1 einsum3_def spectral_def Vx1_def np_diag_def mk_mat_def
      mat_conj_def mat_T_def ncols_def upt_conv_Cons sum_lessThan_3 Let_def field_simps)

lemma normalize_minus_y: "normalize (Float64 [0, - 1, 0]) = [Finite 0, Finite (- 1), Finite 0]"
  by (simp add: normalize_def Let_def fl_sum_3)

lemma reflection_angle_minus_y: "reflection_angle [Finite 0, Finite (- 1), Finite 0] = Finite 0"
  by (simp add: reflection_angle_def Let_def vdot_3 fl_sum_3)

lemma reflection_axis_minus_y:
  "reflection_axis [Finite 0, Finite (- 1), Finite 0] = [Finite 1, Finite 0, Finite 0]"
  by (simp add: reflection_axis_def Let_def np_cross_3 vdot_3 fl_sub_def)

lemma sigma_conjugated_x1:
  "sigma_conjugated eigh_x1 (space_of 1) (Finite a) [Finite 1, Finite 0, Finite 0] =
    Inr (Fin (einsum3
      (spectral Vx1 (map (\<lambda>x. exp (- \<i> * complex_of_real a * complex_of_real x)) [- 1, 0, 1]))
      (SigmaXY_matrix 1)
      (spectral Vx1 (map (\<lambda>x. exp (- \<i> * complex_of_real (- a) * complex_of_real x)) [- 1, 0, 1]))))"
  by (simp only: sigma_conjugated_def rotation_x1 fl_neg.simps sum.case np_einsum3_def
      prod.case np.case space_of_sel)

text \<open>
  Claim C2 fails in the code. For \<open>L = 1\<close> and the normal \<open>(0, -1, 0)\<close> line 102 takes
  the cosine \<open>z_hat . n = 0\<close> itself for the angle, where the claim has the angle
  \<open>phi = pi / 2\<close> whose cosine it is. Both rotations are then the identity and \<open>gen_op\<close>
  returns \<open>SigmaXY\<close>, which is not the reflection of the claim. With the angle \<open>pi / 2\<close>
  the product of line 107 is the reflection of the claim.
\<close>

theorem reflection_takes_cosine_for_angle:
  "reflection_angle (normalize (Float64 [0, - 1, 0])) = Finite 0
   \<and> reflection_axis (normalize (Float64 [0, - 1, 0])) = [Finite 1, Finite 0, Finite 0]
   \<and> gen_op eigh_x1 (space_of 1) 0 (Float64 [0, - 1, 0]) ''Sigma''
       = ([], Inr (Array (Fin (SigmaXY_matrix 1))))
   \<and> reflect_spec eigh_x1 (space_of 1) [0, - 1, 0]
       = Inr (Fin [[0, 0, - 1], [0, 1, 0], [- 1, 0, 0]])
   \<and> reflect_spec eigh_x1 (space_of 1) [0, - 1, 0] \<noteq> Inr (Fin (SigmaXY_matrix 1))
   \<and> sigma_conjugated eigh_x1 (space_of 1) (Finite (pi / 2)) [Finite 1, Finite 0, Finite 0]
       = reflect_spec eigh_x1 (space_of 1) [0, - 1, 0]"
proof -
  have S: "has_shape (SigmaXY_matrix 1) 3 3" using has_shape_SigmaXY [of 1] by (simp add: side_def)
  have "spectral Vx1 (replicate 3 1) = eye 3"
    by (rule spectral_ones [OF _ has_shape_Vx1 Vx1_unitary(1)]) simp
  then have one: "spectral Vx1 [1, 1, 1] = eye 3"
    by (simp add: numeral_3_eq_3)
  have "einsum3 (eye 3) (SigmaXY_matrix 1) (eye 3) = SigmaXY_matrix 1"
    using einsum3_eq_dot [of 3 "eye 3" "SigmaXY_matrix 1" "eye 3"] S
    by (simp add: mat_dot_eye_left mat_dot_eye_right)
  then have "sigma_conjugated eigh_x1 (space_of 1) (Finite 0) [Finite 1, Finite 0, Finite 0]
      = Inr (Fin (SigmaXY_matrix 1))"
    using phases_at_0 [of "[- 1, 0, 1]"] by (simp add: sigma_conjugated_x1 one)
  then have code: "gen_op eigh_x1 (space_of 1) 0 (Float64 [0, - 1, 0]) ''Sigma''
      = ([], Inr (Array (Fin (SigmaXY_matrix 1))))"
    by (simp add: gen_op_Sigma len_def normalize_minus_y reflection_def
        reflection_angle_minus_y reflection_axis_minus_y)
  have "reflect_spec eigh_x1 (space_of 1) [0, - 1, 0]
      = sigma_conjugated eigh_x1 (space_of 1) (Finite (- (pi / 2))) [Finite 1, Finite 0, Finite 0]"
    by (simp add: reflect_spec_def Let_def unit_vec_3 canonical_def cross3_def z_hat_def)
  also have "\<dots> = Inr (Fin [[0, 0, - 1], [0, 1, 0], [- 1, 0, 0]])"
    by (simp only: sigma_conjugated_x1 phases_minus_pi_half phases_pi_half minus_minus
        quarter_turn_x1)
  finally have spec: "reflect_spec eigh_x1 (space_of 1) [0, - 1, 0]
      = Inr (Fin [[0, 0, - 1], [0, 1, 0], [- 1, 0, 0]])" .
  have line: "sigma_conjugated eigh_x1 (space_of 1) (Finite (pi / 2)) [Finite 1, Finite 0, Finite 0]
      = Inr (Fin [[0, 0, - 1], [0, 1, 0], [- 1, 0, 0]])"
    by (simp only: sigma_conjugated_x1 phases_minus_pi_half phases_pi_half quarter_turn_x1)
  show ?thesis
    by (simp add: normalize_minus_y reflection_angle_minus_y reflection_axis_minus_y code spec
        line SigmaXY_matrix_1)
qed

text \<open>
  Claim C3 fails in the code. For the normal \<open>(0, 0, 1)\<close> the cross product with \<open>z_hat\<close>
  is zero, line 104 divides it by its norm, and \<open>_rotation\<close> is called on an axis of
  NaN: the result is whatever \<open>eigh\<close> makes of an array of NaN, an array of NaN when
  \<open>eigh\<close> returns NaN for it and \<open>LinAlgError\<close> when \<open>eigh\<close> raises it. It is not
  \<open>SigmaXY\<close>.
\<close>

theorem reflection_along_z_divides_by_zero:
  "reflection_axis (normalize (Float64 [0, 0, 1])) = [NotANumber, NotANumber, NotANumber]
   \<and> gen_op eigh sp 0 (Float64 [0, 0, 1]) ''Sigma'' =
       ([], case sigma_conjugated eigh sp (Finite 1) [NotANumber, NotANumber, NotANumber] of
              Inl err \<Rightarrow> Inl err | Inr S \<Rightarrow> Inr (Array S))
   \<and> gen_op eigh_diagonal (space_of 1) 0 (Float64 [0, 0, 1]) ''Sigma'' = ([], Inr (Array NaN))
   \<and> gen_op eigh_raising (space_of 1) 0 (Float64 [0, 0, 1]) ''Sigma'' = ([], Inl LinAlgError)"
proof -
  have r: "reflection eigh' sp' [Finite 0, Finite 0, Finite 1]
      = sigma_conjugated eigh' sp' (Finite 1) [NotANumber, NotANumber, NotANumber]" for eigh' sp'
    by (simp add: reflection_def reflection_axis_degenerate reflection_angle_degenerate)
  have g: "gen_op eigh' sp' 0 (Float64 [0, 0, 1]) ''Sigma'' =
      ([], case sigma_conjugated eigh' sp' (Finite 1) [NotANumber, NotANumber, NotANumber] of
             Inl err \<Rightarrow> Inl err | Inr S \<Rightarrow> Inr (Array S))" for eigh' sp'
    by (simp add: gen_op_Sigma len_def normalize_z r)
  have d: "sigma_conjugated eigh_diagonal (space_of 1) (Finite 1) [NotANumber, NotANumber, NotANumber]
      = Inr NaN"
    by (simp add: sigma_conjugated_def rotation_nan_axis eigh_diagonal_def np_einsum3_def)
  have e: "sigma_conjugated eigh_raising (space_of 1) (Finite 1) [NotANumber, NotANumber, NotANumber]
      = Inl LinAlgError"
    by (simp add: sigma_conjugated_def rotation_nan_axis eigh_raising_def)
  show ?thesis
    using g [of eigh sp] g [of eigh_diagonal "space_of 1"] g [of eigh_raising "space_of 1"]
    by (simp add: normalize_z reflection_axis_degenerate d e)
qed

lemma phases_cancel':
  "map2 (*) (map (\<lambda>x. exp (\<i> * complex_of_real a * complex_of_real x)) e)
            (map (\<lambda>x. exp (- (\<i> * complex_of_real a * complex_of_real x))) e) = replicate (length e) 1"
  by (induction e) (simp_all add: exp_add [symmetric])

lemma SigmaXY_squared:
  assumes "0 \<le> l"
  shows "mat_dot (SigmaXY_matrix l) (SigmaXY_matrix l) = eye (side l)"
proof -
  let ?s = "map (\<lambda>m. (- 1 :: complex) ^ nat (l + m)) [- l..l + 1 - 1]"
  have len: "length ?s = side l" using assms by (simp add: side_def)
  have "map2 (*) ?s ?s = replicate (side l) 1"
    using len by (intro nth_equalityI) (simp_all add: power_mult_distrib [symmetric])
  then show ?thesis
    using diag0_dot [of ?s ?s] len assms
    by (simp add: SigmaXY_matrix_def diag0_ones)
qed

text \<open>
  The product of line 107 is its own inverse when the angle and the axis are numbers,
  whatever they are.
\<close>

lemma sigma_conjugated_involution:
  assumes l: "0 \<le> l" and eigh: "eigh_unitary eigh (side l)"
  shows "\<exists>S. sigma_conjugated eigh (space_of l) (Finite a) [Finite x, Finite y, Finite z] = Inr (Fin S)
    \<and> has_shape S (side l) (side l) \<and> mat_dot S S = eye (side l)"
proof -
  let ?d = "side l"
  let ?Sg = "SigmaXY_matrix l"
  have d: "0 < ?d" using l by simp
  obtain e v where r1: "rotation eigh (space_of l) (Finite a) [Finite x, Finite y, Finite z]
        = Inr (Fin (spectral v (map (\<lambda>t. exp (- \<i> * complex_of_real a * complex_of_real t)) e)))"
      and ev: "eigh (axis_generator (space_of l) (Finite x) (Finite y) (Finite z)) = Inr (Fin (e, v))"
      and e: "length e = ?d" and v: "has_shape v ?d ?d"
      and u1: "mat_dot v (mat_adj v) = eye ?d" and u2: "mat_dot (mat_adj v) v = eye ?d"
    using rotation_finite [OF l eigh] by blast
  obtain e' v' where r2': "rotation eigh (space_of l) (Finite (- a)) [Finite x, Finite y, Finite z]
        = Inr (Fin (spectral v' (map (\<lambda>t. exp (- \<i> * complex_of_real (- a) * complex_of_real t)) e')))"
      and ev': "eigh (axis_generator (space_of l) (Finite x) (Finite y) (Finite z)) = Inr (Fin (e', v'))"
    using rotation_finite [OF l eigh] by blast
  from ev ev' have same: "e' = e" "v' = v" by simp_all
  let ?zs = "map (\<lambda>t. exp (- (\<i> * complex_of_real a * complex_of_real t))) e"
  let ?ws = "map (\<lambda>t. exp (\<i> * complex_of_real a * complex_of_real t)) e"
  let ?R1 = "spectral v ?zs" and ?R2 = "spectral v ?ws"
  have r1: "rotation eigh (space_of l) (Finite a) [Finite x, Finite y, Finite z] = Inr (Fin ?R1)"
    using r1 by simp
  have r2: "rotation eigh (space_of l) (Finite (- a)) [Finite x, Finite y, Finite z] = Inr (Fin ?R2)"
    using r2' same by simp
  have zs: "length ?zs = ?d" and ws: "length ?ws = ?d" using e by simp_all
  have R1: "has_shape ?R1 ?d ?d" and R2: "has_shape ?R2 ?d ?d"
    using has_shape_spectral [OF d v zs] has_shape_spectral [OF d v ws] by simp_all
  have Sg: "has_shape ?Sg ?d ?d" using l by simp
  have R21: "mat_dot ?R2 ?R1 = eye ?d"
    using spectral_dot [OF d v ws zs u2] spectral_ones [OF d v u1] e by (simp add: phases_cancel')
  have R12: "mat_dot ?R1 ?R2 = eye ?d"
    using spectral_dot [OF d v zs ws u2] spectral_ones [OF d v u1] e by (simp add: phases_cancel)
  let ?P = "mat_dot ?R1 ?Sg"
  let ?S = "mat_dot ?P ?R2"
  have P: "has_shape ?P ?d ?d" using R1 Sg d by simp
  have S: "has_shape ?S ?d ?d" using P R2 d by simp
  have SR: "has_shape (mat_dot ?Sg ?R2) ?d ?d" using Sg R2 d by simp
  have "sigma_conjugated eigh (space_of l) (Finite a) [Finite x, Finite y, Finite z] = Inr (Fin ?S)"
    by (simp add: sigma_conjugated_def r1 r2 np_einsum3_def
        einsum3_eq_dot [OF d R1 Sg R2])
  moreover have "mat_dot ?S ?S = eye ?d"
  proof -
    have "mat_dot ?S ?S = mat_dot ?P (mat_dot ?R2 ?S)"
      by (rule mat_dot_assoc [OF d P R2 S])
    also have "mat_dot ?R2 ?S = mat_dot (mat_dot ?R2 ?P) ?R2"
      by (rule mat_dot_assoc [OF d R2 P R2, symmetric])
    also have "mat_dot ?R2 ?P = mat_dot (mat_dot ?R2 ?R1) ?Sg"
      by (rule mat_dot_assoc [OF d R2 R1 Sg, symmetric])
    also have "\<dots> = ?Sg" unfolding R21 by (rule mat_dot_eye_left [OF d Sg])
    also have "mat_dot ?P (mat_dot ?Sg ?R2) = mat_dot ?R1 (mat_dot ?Sg (mat_dot ?Sg ?R2))"
      by (rule mat_dot_assoc [OF d R1 Sg SR])
    also have "mat_dot ?Sg (mat_dot ?Sg ?R2) = mat_dot (mat_dot ?Sg ?Sg) ?R2"
      by (rule mat_dot_assoc [OF d Sg Sg R2, symmetric])
    also have "\<dots> = ?R2"
      unfolding SigmaXY_squared [OF l] by (rule mat_dot_eye_left [OF d R2])
    also have "mat_dot ?R1 ?R2 = eye ?d" by (rule R12)
    finally show ?thesis .
  qed
  ultimately show ?thesis using S by blast
qed

text \<open>
  Lines 98 to 104 on a normal of three numbers whose first or second component has a
  square that does not underflow: the angle and the three components of the axis are
  numbers.
\<close>

lemma abs_above_tiny: "f64_tiny < x * x \<Longrightarrow> f64_tiny < \<bar>x\<bar>"
proof (rule ccontr)
  assume x: "f64_tiny < x * x" and "\<not> f64_tiny < \<bar>x\<bar>"
  then have "\<bar>x\<bar> * \<bar>x\<bar> \<le> f64_tiny * 1"
    using f64_tiny_less_1 by (intro mult_mono) simp_all
  then show False using x by (simp add: abs_mult_self_eq)
qed

lemma f64_flush:
  assumes "\<bar>x\<bar> < f64_over"
  shows "\<exists>fx. f64 x = Finite fx \<and> \<bar>fx\<bar> \<le> \<bar>x\<bar> \<and> (f64_tiny < x * x \<longrightarrow> fx = x)
    \<and> f64 fx = Finite fx \<and> f64 (- fx) = Finite (- fx)"
proof (cases "\<bar>x\<bar> \<le> f64_tiny")
  case True
  then have "\<not> f64_tiny < x * x" using abs_above_tiny [of x] by auto
  then show ?thesis
    using True f64_tiny_pos f64_over_gt_1 by (intro exI [of _ 0]) (simp add: f64_def)
next
  case False
  then show ?thesis using assms by (intro exI [of _ x]) (auto simp: f64_def)
qed

lemma map2_fl_mul_self:
  "map2 fl_mul (map Finite r) (map Finite r) = map (\<lambda>x. f64 (x * x)) r"
  by (induction r) simp_all

lemma reflection_finite:
  assumes b: "\<bar>x\<bar> < f64_over" "\<bar>y\<bar> < f64_over" "\<bar>z\<bar> < f64_over"
    and xy: "f64_tiny < x * x \<or> f64_tiny < y * y"
  shows "\<exists>a r0 r1 r2. reflection_angle [Finite x, Finite y, Finite z] = Finite a
    \<and> reflection_axis [Finite x, Finite y, Finite z] = [Finite r0, Finite r1, Finite r2]"
proof -
  define c :: real where "c = (if z < 0 then - 1 else 1)"
  define x' y' z' where "x' = c * x" and "y' = c * y" and "z' = c * z"
  let ?ax = "[Finite x', Finite y', Finite z']"
  have ax: "(if fl_lt ([Finite x, Finite y, Finite z] ! 2) (Finite 0)
      then map fl_neg [Finite x, Finite y, Finite z] else [Finite x, Finite y, Finite z]) = ?ax"
    by (simp add: c_def x'_def y'_def z'_def)
  have cc: "c * c = 1" by (simp add: c_def)
  have sq: "x' * x' = x * x" "y' * y' = y * y"
    using cc by (simp_all add: x'_def y'_def mult.assoc mult.left_commute)
  have ab: "\<bar>x'\<bar> = \<bar>x\<bar>" "\<bar>y'\<bar> = \<bar>y\<bar>" "\<bar>z'\<bar> = \<bar>z\<bar>"
    by (simp_all add: c_def x'_def y'_def z'_def)
  obtain fx where fx: "f64 x' = Finite fx" "\<bar>fx\<bar> \<le> \<bar>x'\<bar>" "f64_tiny < x' * x' \<longrightarrow> fx = x'"
      "f64 fx = Finite fx" "f64 (- fx) = Finite (- fx)"
    using f64_flush [of x'] b(1) ab(1) by auto
  obtain fy where fy: "f64 y' = Finite fy" "\<bar>fy\<bar> \<le> \<bar>y'\<bar>" "f64_tiny < y' * y' \<longrightarrow> fy = y'"
      "f64 fy = Finite fy" "f64 (- fy) = Finite (- fy)"
    using f64_flush [of y'] b(2) ab(2) by auto
  obtain fz where fz: "f64 z' = Finite fz" "\<bar>fz\<bar> \<le> \<bar>z'\<bar>" "f64_tiny < z' * z' \<longrightarrow> fz = z'"
      "f64 fz = Finite fz" "f64 (- fz) = Finite (- fz)"
    using f64_flush [of z'] b(3) ab(3) by auto
  let ?r = "[- fy, fx, 0]"
  have cross: "np_cross [Finite 0, Finite 0, Finite 1] ?ax = map Finite ?r"
    by (simp add: np_cross_3 fl_sub_def fx fy)
  have ex_r: "\<exists>t\<in>set ?r. f64_tiny < t * t"
    using xy sq fx(3) fy(3) by auto
  let ?D = "fl_sqrt (fl_sum (map (\<lambda>x. f64 (x * x)) ?r))"
  have "\<forall>t\<in>set ?r. \<exists>u. fl_div (Finite t) ?D = Finite u"
    using normalized_component_finite [OF ex_r _ order_refl] by blast
  then obtain r0 r1 r2 where r: "fl_div (Finite (- fy)) ?D = Finite r0"
      "fl_div (Finite fx) ?D = Finite r1" "fl_div (Finite 0) ?D = Finite r2"
    by auto
  have "reflection_axis [Finite x, Finite y, Finite z]
      = map (\<lambda>t. fl_div t (fl_sqrt (vdot (map Finite ?r) (map Finite ?r)))) (map Finite ?r)"
    unfolding reflection_axis_def Let_def ax cross ..
  also have "\<dots> = map (\<lambda>t. fl_div t ?D) (map Finite ?r)"
    by (simp only: vdot_def map2_fl_mul_self)
  also have "\<dots> = [Finite r0, Finite r1, Finite r2]"
    using r by simp
  finally have axis: "reflection_axis [Finite x, Finite y, Finite z] = [Finite r0, Finite r1, Finite r2]" .
  let ?E = "fl_sqrt (fl_sum (map (\<lambda>x. f64 (x * x)) [x', y', z']))"
  have ex_a: "\<exists>t\<in>set [x', y', z']. f64_tiny < t * t"
    using xy sq by auto
  have "z' \<in> set [x', y', z']" by simp
  from normalized_component_finite [OF ex_a this fz(2)]
  obtain a where a: "fl_div (Finite fz) ?E = Finite a" by blast
  have num: "vdot [Finite 0, Finite 0, Finite 1] ?ax = Finite fz"
    by (simp add: vdot_3 fz)
  have "reflection_angle [Finite x, Finite y, Finite z]
      = fl_div (vdot [Finite 0, Finite 0, Finite 1] ?ax) (fl_sqrt (fl_sum (map (\<lambda>x. fl_mul x x) ?ax)))"
    unfolding reflection_angle_def Let_def ax ..
  also have "\<dots> = Finite a"
    unfolding num using a by simp
  finally have "reflection_angle [Finite x, Finite y, Finite z] = Finite a" .
  then show ?thesis using axis by blast
qed

text \<open>What line 72 returns as a number is within the range of float64.\<close>

lemma fl_div_in_range: "fl_div a b = Finite y \<Longrightarrow> \<bar>y\<bar> < f64_over"
  using f64_over_gt_1
  by (cases a; cases b) (auto simp: f64_def split: if_splits)

lemma normalize_in_range:
  assumes "Finite y \<in> set (normalize ax)"
  shows "\<bar>y\<bar> < f64_over"
  using assms by (cases ax) (auto simp: normalize_def Let_def dest!: fl_div_in_range [OF sym])

text \<open>
  For a normal whose first or second component, once normalised, has a square that
  does not underflow, the reflection of the code is its own inverse, whatever angle it
  used.
\<close>

lemma reflection_involution_off_axis:
  assumes sp: "SU_init eigvalsh (PyInt l) = Inr sp"
    and n: "normalize n = [Finite x, Finite y, Finite z]"
    and xy: "f64_tiny < x * x \<or> f64_tiny < y * y"
    and eigh: "eigh_unitary eigh (side l)"
  shows "reflect_twice eigh sp n = Inr (Fin (eye (side l)))"
proof -
  from sp have l: "0 \<le> l" and sp_eq: "sp = space_of l"
    using SU_init_Inr [OF sp] by auto
  have len: "len n = 3" using length_normalize [of n] n by simp
  have ang: "\<bar>0 :: real\<bar> < 2 * np_pi" by simp
  have b: "\<bar>x\<bar> < f64_over" "\<bar>y\<bar> < f64_over" "\<bar>z\<bar> < f64_over"
    using normalize_in_range [of _ n] n by simp_all
  obtain a r0 r1 r2 where a: "reflection_angle [Finite x, Finite y, Finite z] = Finite a"
      and r: "reflection_axis [Finite x, Finite y, Finite z] = [Finite r0, Finite r1, Finite r2]"
    using reflection_finite [OF b xy] by blast
  obtain S where S: "sigma_conjugated eigh (space_of l) (Finite a) [Finite r0, Finite r1, Finite r2]
        = Inr (Fin S)"
      "has_shape S (side l) (side l)" "mat_dot S S = eye (side l)"
    using sigma_conjugated_involution [OF l eigh] by blast
  have "gen_op eigh (space_of l) 0 n ''Sigma'' = ([], Inr (Array (Fin S)))"
    by (simp add: gen_op_Sigma [OF len ang] n reflection_def a r S(1))
  then show ?thesis
    by (simp add: reflect_twice_def sp_eq S(3) np_dot_def)
qed

text \<open>
  A normal of norm at most 1, a unit normal in particular: the sum of the squares is at
  most 1, so that no component grows smaller under line 72, and the reflection is its
  own inverse when the first or the second component has a square that does not
  underflow.
\<close>

lemma f64_nonneg:
  assumes "0 \<le> r" and "r \<le> 1"
  shows "\<exists>q. f64 r = Finite q \<and> 0 \<le> q \<and> q \<le> r"
  using assms f64_over_gt_1 by (auto simp: f64_def)

lemma sum_squares_nonneg: "0 \<le> (\<Sum>x\<leftarrow>xs. x * x)" for xs :: "real list"
  by (rule sum_list_nonneg) auto

lemma fl_sum_squares_upper:
  assumes "0 \<le> c" and "c + (\<Sum>t\<leftarrow>ts. t * t) \<le> 1"
  shows "\<exists>s. foldl fl_add (Finite c) (map (\<lambda>x. f64 (x * x)) ts) = Finite s \<and> 0 \<le> s
    \<and> s \<le> c + (\<Sum>t\<leftarrow>ts. t * t)"
  using assms
proof (induction ts arbitrary: c)
  case Nil
  then show ?case by simp
next
  case (Cons t ts)
  have rest: "0 \<le> (\<Sum>t\<leftarrow>ts. t * t)" by (rule sum_squares_nonneg)
  have tt: "0 \<le> t * t" by simp
  have "t * t \<le> 1" using Cons.prems rest by simp
  then obtain q where q: "f64 (t * t) = Finite q" "0 \<le> q" "q \<le> t * t"
    using f64_nonneg [OF tt] by blast
  have "c + q \<le> 1" using Cons.prems rest q by simp
  moreover have "0 \<le> c + q" using Cons.prems(1) q(2) by simp
  ultimately obtain c' where c': "f64 (c + q) = Finite c'" "0 \<le> c'" "c' \<le> c + q"
    using f64_nonneg by blast
  have "c' + (\<Sum>t\<leftarrow>ts. t * t) \<le> 1" using c'(3) q(3) Cons.prems(2) by simp
  from Cons.IH [OF c'(2) this]
  obtain s where s: "foldl fl_add (Finite c') (map (\<lambda>x. f64 (x * x)) ts) = Finite s" "0 \<le> s"
      "s \<le> c' + (\<Sum>t\<leftarrow>ts. t * t)"
    by blast
  have "foldl fl_add (Finite c) (map (\<lambda>x. f64 (x * x)) (t # ts)) = Finite s"
    by (simp add: q(1) c'(1) s(1))
  moreover have "s \<le> c + (\<Sum>t\<leftarrow>t # ts. t * t)" using s(3) c'(3) q(3) by simp
  ultimately show ?case using s(2) by blast
qed

lemma normalized_component_large:
  assumes le: "(\<Sum>t\<leftarrow>ts. t * t) \<le> 1" and t: "t \<in> set ts" "f64_tiny < t * t"
  shows "\<exists>u. fl_div (Finite t) (fl_sqrt (fl_sum (map (\<lambda>x. f64 (x * x)) ts))) = Finite u
    \<and> f64_tiny < u * u"
proof -
  let ?S = "fl_sum (map (\<lambda>x. f64 (x * x)) ts)"
  obtain s where s: "?S = Finite s" "0 \<le> s" "s \<le> 1"
    using fl_sum_squares_upper [of 0 ts] le unfolding fl_sum_def by auto
  have "fl_ge ?S (t * t)" by (rule fl_ge_sum_squares [OF t])
  then have ts: "t * t \<le> s" by (simp add: s(1))
  then have s_tiny: "f64_tiny < s" using t(2) by simp
  have s1: "sqrt s \<le> 1" using s(3) by simp
  have s2: "f64_tiny < sqrt s" by (rule sqrt_above_tiny [OF s_tiny])
  have "fl_sqrt ?S = fl_sqrt (Finite s)" by (simp only: s(1))
  also have "\<dots> = f64 (sqrt s)" using s(2) by simp
  also have "\<dots> = Finite (sqrt s)"
  proof (rule f64_eq_Finite)
    have a: "\<bar>sqrt s\<bar> = sqrt s" using s(2) by simp
    show "f64_tiny < \<bar>sqrt s\<bar>" using s2 a by linarith
    show "\<bar>sqrt s\<bar> < f64_over" using s1 a f64_over_gt_1 by linarith
  qed
  finally have d: "fl_sqrt ?S = Finite (sqrt s)" .
  have pos: "0 < sqrt s" using s_tiny f64_tiny_pos by simp
  have "\<bar>t\<bar> = sqrt (t * t)" by simp
  also have "\<dots> \<le> sqrt s" using ts by (simp only: real_sqrt_le_iff)
  finally have t_le: "\<bar>t\<bar> \<le> sqrt s" .
  have up: "\<bar>t / sqrt s\<bar> \<le> 1" using t_le pos by simp
  have "\<bar>t\<bar> / 1 \<le> \<bar>t\<bar> / sqrt s"
    using pos s1 by (intro divide_left_mono) simp_all
  then have low: "\<bar>t\<bar> \<le> \<bar>t / sqrt s\<bar>" using pos by simp
  have "f64_tiny < \<bar>t\<bar>" by (rule abs_above_tiny [OF t(2)])
  then have "f64_tiny < \<bar>t / sqrt s\<bar>" using low by linarith
  moreover have "\<bar>t / sqrt s\<bar> < f64_over" using up f64_over_gt_1 by linarith
  ultimately have "f64 (t / sqrt s) = Finite (t / sqrt s)"
    by (rule f64_eq_Finite)
  then have "fl_div (Finite t) (fl_sqrt ?S) = Finite (t / sqrt s)"
    using pos by (simp only: d fl_div.simps) simp
  moreover have "f64_tiny < t / sqrt s * (t / sqrt s)"
  proof -
    have "t * t = \<bar>t\<bar> * \<bar>t\<bar>" by simp
    also have "\<dots> \<le> \<bar>t / sqrt s\<bar> * \<bar>t / sqrt s\<bar>"
      using low by (intro mult_mono) simp_all
    also have "\<dots> = t / sqrt s * (t / sqrt s)" by simp
    finally show ?thesis using t(2) by linarith
  qed
  ultimately show ?thesis by blast
qed

lemma normalize_unit_normal:
  assumes u: "x * x + y * y + z * z \<le> 1" and xy: "f64_tiny < x * x \<or> f64_tiny < y * y"
  shows "\<exists>ux uy uz. normalize (Float64 [x, y, z]) = [Finite ux, Finite uy, Finite uz]
    \<and> (f64_tiny < ux * ux \<or> f64_tiny < uy * uy)"
proof -
  have sq: "x * x \<le> 1" "y * y \<le> 1" "z * z \<le> 1"
    using u zero_le_square [of x] zero_le_square [of y] zero_le_square [of z] by linarith+
  have ab: "\<bar>x\<bar> \<le> 1" "\<bar>y\<bar> \<le> 1" "\<bar>z\<bar> \<le> 1"
    using sq by (simp_all add: abs_le_square_iff [of _ 1, simplified] power2_eq_square)
  then have b: "\<bar>x\<bar> < f64_over" "\<bar>y\<bar> < f64_over" "\<bar>z\<bar> < f64_over"
    using f64_over_gt_1 by linarith+
  obtain fx where fx: "f64 x = Finite fx" "\<bar>fx\<bar> \<le> \<bar>x\<bar>" "f64_tiny < x * x \<longrightarrow> fx = x"
    using f64_flush [OF b(1)] by blast
  obtain fy where fy: "f64 y = Finite fy" "\<bar>fy\<bar> \<le> \<bar>y\<bar>" "f64_tiny < y * y \<longrightarrow> fy = y"
    using f64_flush [OF b(2)] by blast
  obtain fz where fz: "f64 z = Finite fz" "\<bar>fz\<bar> \<le> \<bar>z\<bar>" "f64_tiny < z * z \<longrightarrow> fz = z"
    using f64_flush [OF b(3)] by blast
  let ?ts = "[fx, fy, fz]"
  let ?D = "fl_sqrt (fl_sum (map (\<lambda>x. f64 (x * x)) ?ts))"
  have n: "normalize (Float64 [x, y, z]) = map (\<lambda>t. fl_div (Finite t) ?D) ?ts"
    by (simp add: normalize_def Let_def fx(1) fy(1) fz(1))
  have "fx * fx \<le> x * x" "fy * fy \<le> y * y" "fz * fz \<le> z * z"
    using fx(2) fy(2) fz(2) by (simp_all add: abs_le_square_iff power2_eq_square)
  then have le: "(\<Sum>t\<leftarrow>?ts. t * t) \<le> 1" using u by simp
  have ex: "\<exists>t\<in>set ?ts. f64_tiny < t * t" using xy fx(3) fy(3) by auto
  have "\<forall>t\<in>set ?ts. \<exists>v. fl_div (Finite t) ?D = Finite v"
    using normalized_component_finite [OF ex _ order_refl] by blast
  then obtain ux uy uz where c: "fl_div (Finite fx) ?D = Finite ux"
      "fl_div (Finite fy) ?D = Finite uy" "fl_div (Finite fz) ?D = Finite uz"
    by auto
  have "f64_tiny < ux * ux" if "f64_tiny < x * x"
    using normalized_component_large [OF le, of fx] that fx(3) c(1) by auto
  moreover have "f64_tiny < uy * uy" if "f64_tiny < y * y"
    using normalized_component_large [OF le, of fy] that fy(3) c(2) by auto
  ultimately have "f64_tiny < ux * ux \<or> f64_tiny < uy * uy" using xy by blast
  moreover have "normalize (Float64 [x, y, z]) = [Finite ux, Finite uy, Finite uz]"
    unfolding n using c by simp
  ultimately show ?thesis by blast
qed

lemma reflection_involution_unit_normal:
  assumes sp: "SU_init eigvalsh (PyInt l) = Inr sp"
    and u: "x * x + y * y + z * z \<le> 1"
    and xy: "f64_tiny < x * x \<or> f64_tiny < y * y"
    and eigh: "eigh_unitary eigh (side l)"
  shows "reflect_twice eigh sp (Float64 [x, y, z]) = Inr (Fin (eye (side l)))"
proof -
  obtain ux uy uz where n: "normalize (Float64 [x, y, z]) = [Finite ux, Finite uy, Finite uz]"
      and uxy: "f64_tiny < ux * ux \<or> f64_tiny < uy * uy"
    using normalize_unit_normal [OF u xy] by blast
  show ?thesis by (rule reflection_involution_off_axis [OF sp n uxy eigh])
qed

text \<open>
  Claim C6 fails in the code at the unit normal \<open>(0, 0, 1)\<close>, by the division by zero of
  claim C3: the reflection is an array of NaN when \<open>eigh\<close> returns NaN for such an array,
  and so is its product with itself; when \<open>eigh\<close> raises \<open>LinAlgError\<close> there is no
  reflection to multiply.
\<close>

theorem reflect_twice_along_z:
  "reflect_twice eigh_diagonal (space_of 1) (Float64 [0, 0, 1]) = Inr NaN
   \<and> reflect_twice eigh_raising (space_of 1) (Float64 [0, 0, 1]) = Inl LinAlgError"
proof -
  have r: "reflection eigh' sp' [Finite 0, Finite 0, Finite 1]
      = sigma_conjugated eigh' sp' (Finite 1) [NotANumber, NotANumber, NotANumber]" for eigh' sp'
    by (simp add: reflection_def reflection_axis_degenerate reflection_angle_degenerate)
  have d: "sigma_conjugated eigh_diagonal (space_of 1) (Finite 1) [NotANumber, NotANumber, NotANumber]
      = Inr NaN"
    by (simp add: sigma_conjugated_def rotation_nan_axis eigh_diagonal_def np_einsum3_def)
  have e: "sigma_conjugated eigh_raising (space_of 1) (Finite 1) [NotANumber, NotANumber, NotANumber]
      = Inl LinAlgError"
    by (simp add: sigma_conjugated_def rotation_nan_axis eigh_raising_def)
  have "gen_op eigh_diagonal (space_of 1) 0 (Float64 [0, 0, 1]) ''Sigma'' = ([], Inr (Array NaN))"
    by (simp add: gen_op_Sigma len_def normalize_z r d)
  moreover have "gen_op eigh_raising (space_of 1) 0 (Float64 [0, 0, 1]) ''Sigma'' = ([], Inl LinAlgError)"
    by (simp add: gen_op_Sigma len_def normalize_z r e)
  ultimately show ?thesis by (simp add: reflect_twice_def np_dot_def)
qed

section \<open>The spectra of the generators\<close>

lemma pw_Suc_right: "pw a (Suc b) k = pw a b (k - 1) - pw a b k"
  by (induction a arbitrary: k) simp_all

lemma pw_neg: "k < 0 \<Longrightarrow> pw a b k = 0"
  by (induction a b k rule: pw.induct) simp_all

lemma pw_above: "int (a + b) < k \<Longrightarrow> pw a b k = 0"
  by (induction a b k rule: pw.induct) simp_all

lemma pw_top: "pw a b (int (a + b)) = 1"
proof (induction a b "int (a + b)" rule: pw.induct)
  case 1
  then show ?case by simp
next
  case (2 b)
  have "pw 0 b (int b) = 1" using 2 by simp
  moreover have "pw 0 b (int (Suc b)) = 0" by (rule pw_above) simp
  ultimately show ?case by simp
next
  case (3 a b)
  have "pw a b (int (a + b)) = 1" using 3 by simp
  moreover have "pw a b (int (Suc a + b)) = 0" by (rule pw_above) simp
  ultimately show ?case by simp
qed

text \<open>
  The coefficients satisfy the recurrence of an eigenvector: it is the identity
  \<open>(1 - t^2) p' + n t p = (a - b) p\<close> for \<open>p = (t + 1)^a (t - 1)^b\<close> and \<open>n = a + b\<close>.
\<close>

lemma pw_recurrence:
  "(of_int k + 1) * pw a b (k + 1) + (real (a + b) - of_int k + 1) * pw a b (k - 1)
    = (real a - real b) * pw a b k"
proof (induction a b k rule: pw.induct)
  case (1 k)
  then show ?case by auto
next
  case (2 b k)
  have a: "k + 1 - 1 = k" "k - 1 + 1 = k" by simp_all
  from 2 show ?case
    by (simp add: a algebra_simps)
next
  case (3 a b k)
  have a: "k + 1 - 1 = k" "k - 1 + 1 = k" by simp_all
  from 3 show ?case
    by (simp add: a algebra_simps)
qed

lemma subst_pm_shift:
  "subst_pm (Suc n) (\<lambda>j. case j of 0 \<Rightarrow> 0 | Suc m \<Rightarrow> w m) i = subst_pm n w (i - 1) + subst_pm n w i"
proof -
  have "subst_pm (Suc n) (\<lambda>j. case j of 0 \<Rightarrow> 0 | Suc m \<Rightarrow> w m) i
      = (\<Sum>j\<le>n. w j * pw (Suc j) (n - j) i)"
    unfolding subst_pm_def by (subst sum.atMost_Suc_shift) simp
  also have "\<dots> = (\<Sum>j\<le>n. w j * pw j (n - j) (i - 1) + w j * pw j (n - j) i)"
    by (simp add: algebra_simps)
  also have "\<dots> = subst_pm n w (i - 1) + subst_pm n w i"
    by (simp add: subst_pm_def sum.distrib)
  finally show ?thesis .
qed

lemma subst_pm_keep:
  assumes "w (Suc n) = 0"
  shows "subst_pm (Suc n) w i = subst_pm n w (i - 1) - subst_pm n w i"
proof -
  have "subst_pm (Suc n) w i = (\<Sum>j\<le>n. w j * pw j (Suc n - j) i)"
    using assms by (simp add: subst_pm_def)
  also have "\<dots> = (\<Sum>j\<le>n. w j * pw j (n - j) (i - 1) - w j * pw j (n - j) i)"
    by (intro sum.cong) (simp_all add: Suc_diff_le pw_Suc_right algebra_simps)
  also have "\<dots> = subst_pm n w (i - 1) - subst_pm n w i"
    by (simp add: subst_pm_def sum_subtractf)
  finally show ?thesis .
qed

lemma subst_pm_add: "subst_pm n (\<lambda>j. u j + w j) i = subst_pm n u i + subst_pm n w i"
  by (simp add: subst_pm_def algebra_simps sum.distrib)

lemma subst_pm_diff: "subst_pm n (\<lambda>j. u j - w j) i = subst_pm n u i - subst_pm n w i"
  by (simp add: subst_pm_def algebra_simps sum_subtractf)

text \<open>
  Substituting twice multiplies by \<open>2^n\<close>: \<open>(t + 1) + (t - 1) = 2 t\<close> and
  \<open>(t + 1) - (t - 1) = 2\<close>. So the array of the coefficients is invertible.
\<close>

lemma subst_pm_twice:
  "k \<le> n \<Longrightarrow> subst_pm n (\<lambda>j. pw k (n - k) (int j)) i = (if i = int k then 2 ^ n else 0)"
proof (induction n arbitrary: k i)
  case 0
  then show ?case by (simp add: subst_pm_def)
next
  case (Suc n)
  show ?case
  proof (cases "k \<le> n")
    case True
    let ?c = "\<lambda>j. pw k (n - k) (int j)"
    have col: "(\<lambda>j. pw k (Suc n - k) (int j)) = (\<lambda>j. (case j of 0 \<Rightarrow> 0 | Suc m \<Rightarrow> ?c m) - ?c j)"
    proof
      fix j show "pw k (Suc n - k) (int j) = (case j of 0 \<Rightarrow> 0 | Suc m \<Rightarrow> ?c m) - ?c j"
        using True by (cases j) (simp_all add: Suc_diff_le pw_Suc_right pw_neg)
    qed
    have top: "?c (Suc n) = 0" using True by (intro pw_above) simp
    show ?thesis
      unfolding col subst_pm_diff subst_pm_shift subst_pm_keep [of ?c, OF top]
      using Suc.IH [OF True] by simp
  next
    case False
    with Suc.prems obtain k' where k: "k = Suc k'" "k' \<le> n" "k' = n"
      by (cases k) auto
    let ?c = "\<lambda>j. pw k' (n - k') (int j)"
    have col: "(\<lambda>j. pw k (Suc n - k) (int j)) = (\<lambda>j. (case j of 0 \<Rightarrow> 0 | Suc m \<Rightarrow> ?c m) + ?c j)"
    proof
      fix j show "pw k (Suc n - k) (int j) = (case j of 0 \<Rightarrow> 0 | Suc m \<Rightarrow> ?c m) + ?c j"
        using k by (cases j) (simp_all add: pw_neg)
    qed
    have top: "?c (Suc n) = 0" using k by (intro pw_above) simp
    show ?thesis
      unfolding col subst_pm_add subst_pm_shift subst_pm_keep [of ?c, OF top]
      using Suc.IH [OF k(2)] k by auto
  qed
qed

lemma is_eigenvalue_eig_fun:
  assumes A: "length A = d" and a: "\<And>i k. i < d \<Longrightarrow> k < d \<Longrightarrow> A ! i ! k = a i k"
  shows "is_eigenvalue A lam \<longleftrightarrow> eig_fun d a lam"
proof
  assume "is_eigenvalue A lam"
  then obtain v where v: "length v = d" "\<exists>x\<in>set v. x \<noteq> 0" "mat_vec A v = map ((*) lam) v"
    using A by (auto simp: is_eigenvalue_def)
  have "(\<Sum>k<d. a i k * v ! k) = lam * v ! i" if i: "i < d" for i
  proof -
    have "mat_vec A v ! i = (\<Sum>k<d. A ! i ! k * v ! k)"
      using i A v(1) by (simp add: mat_vec_def)
    also have "\<dots> = (\<Sum>k<d. a i k * v ! k)"
      using i by (intro sum.cong) (simp_all add: a)
    finally show ?thesis using v(1,3) i by simp
  qed
  moreover have "\<exists>i<d. v ! i \<noteq> 0"
    using v(1,2) by (auto simp: in_set_conv_nth)
  ultimately show "eig_fun d a lam"
    unfolding eig_fun_def by (intro exI [of _ "\<lambda>i. v ! i"]) simp
next
  assume "eig_fun d a lam"
  then obtain f where f: "\<exists>i<d. f i \<noteq> 0" "\<forall>i<d. (\<Sum>k<d. a i k * f k) = lam * f i"
    by (auto simp: eig_fun_def)
  let ?v = "map f [0..<d]"
  have "mat_vec A ?v = map ((*) lam) ?v"
  proof (rule nth_equalityI)
    show "length (mat_vec A ?v) = length (map ((*) lam) ?v)"
      using A by (simp add: mat_vec_def)
  next
    fix i assume "i < length (mat_vec A ?v)"
    then have i: "i < d" using A by (simp add: mat_vec_def)
    have "mat_vec A ?v ! i = (\<Sum>k<d. A ! i ! k * f k)"
      using i A by (simp add: mat_vec_def)
    also have "\<dots> = (\<Sum>k<d. a i k * f k)"
      using i by (intro sum.cong) (simp_all add: a)
    finally show "mat_vec A ?v ! i = map ((*) lam) ?v ! i"
      using f(2) i by simp
  qed
  moreover have "\<exists>x\<in>set ?v. x \<noteq> 0" using f(1) by auto
  ultimately show "is_eigenvalue A lam"
    unfolding is_eigenvalue_def using A by (intro exI [of _ ?v]) simp
qed

lemma eig_fun_z:
  assumes "0 \<le> l"
  shows "eig_fun (side l) (ez l) lam \<longleftrightarrow> lam \<in> of_int ` {- l..l}"
proof
  assume "eig_fun (side l) (ez l) lam"
  then obtain f i where i: "i < side l" "f i \<noteq> 0"
    and f: "\<forall>i< side l. (\<Sum>k< side l. ez l i k * f k) = lam * f i"
    by (auto simp: eig_fun_def)
  from f i(1) have "(\<Sum>k< side l. ez l i k * f k) = lam * f i" by blast
  then have "of_int (int i - l) * f i = lam * f i"
    by (simp only: ez_row_sum [OF i(1)])
  with i have "lam = of_int (int i - l)" by simp
  moreover have "int i - l \<in> {- l..l}" using i(1) assms by (auto simp: side_def)
  ultimately show "lam \<in> of_int ` {- l..l}" by blast
next
  assume "lam \<in> of_int ` {- l..l}"
  then obtain m where m: "- l \<le> m" "m \<le> l" "lam = of_int m" by auto
  let ?i = "nat (m + l)"
  let ?f = "\<lambda>k. if k = ?i then 1 else (0::complex)"
  have i: "?i < side l" using m by (simp add: side_def)
  have "(\<Sum>k< side l. ez l j k * ?f k) = lam * ?f j" if "j < side l" for j
    using that m by (auto simp: ez_row_sum)
  then show "eig_fun (side l) (ez l) lam"
    unfolding eig_fun_def using i by (intro exI [of _ ?f]) auto
qed

lemma sqrt_square_mult: "0 \<le> B \<Longrightarrow> sqrt (B * B * X) = B * sqrt X"
  by (simp add: real_sqrt_mult)

lemma cc_gg:
  assumes "int n = 2 * l" and "m < n"
  shows "cc l m * gg n m = real (n - m) * gg n (Suc m)"
    and "cc l m * gg n (Suc m) = real (Suc m) * gg n m"
proof -
  define A B P Q where "A = real (Suc m)" and "B = real (n - m)"
    and "P = (fact m :: real)" and "Q = (fact (n - Suc m) :: real)"
  have nm: "n - m = Suc (n - Suc m)" using assms(2) by simp
  have pos: "0 \<le> A" "0 \<le> B" by (simp_all add: A_def B_def)
  have "real_of_int ((int m + 1) * (2 * l - int m)) = A * B"
    using assms by (simp add: A_def B_def assms(1) [symmetric])
  then have c: "cc l m = sqrt (A * B)" by (simp only: cc_def)
  have "(fact (n - m) :: real) = B * Q"
    unfolding B_def Q_def by (subst nm, subst fact_Suc, simp add: nm [symmetric])
  then have g: "gg n m = sqrt (P * (B * Q))" by (simp add: gg_def P_def)
  have g': "gg n (Suc m) = sqrt (A * P * Q)"
    by (simp add: gg_def A_def P_def Q_def algebra_simps)
  have "cc l m * gg n m = sqrt (B * B * (A * P * Q))"
    unfolding c g by (simp add: real_sqrt_mult [symmetric] algebra_simps)
  then show "cc l m * gg n m = real (n - m) * gg n (Suc m)"
    unfolding g' using sqrt_square_mult [OF pos(2)] by (simp add: B_def)
  have "cc l m * gg n (Suc m) = sqrt (A * A * (P * (B * Q)))"
    unfolding c g' by (simp add: real_sqrt_mult [symmetric] algebra_simps)
  then show "cc l m * gg n (Suc m) = real (Suc m) * gg n m"
    unfolding g using sqrt_square_mult [OF pos(1)] by (simp add: A_def)
qed

lemma gg_pos: "0 < gg n k"
  by (simp add: gg_def)

lemma half_sum_combine:
  fixes G :: real
  assumes "U = p * G * Wp" and "D = q * G * Wm" and "p * Wp + q * Wm = c * W0"
  shows "D / 2 + U / 2 = c / 2 * (G * W0)"
proof -
  have "G * (p * Wp + q * Wm) = G * (c * W0)" by (simp only: assms(3))
  then show ?thesis unfolding assms(1,2) by (simp add: algebra_simps)
qed

text \<open>
  The vector of the weighted coefficients of \<open>(t + 1)^a (t - 1)^b\<close>, \<open>a + b = 2L\<close>, is an
  eigenvector of \<open>Lx\<close> for \<open>(a - b) / 2\<close>.
\<close>

lemma ex_eigenvector:
  assumes l: "0 \<le> l" and ab: "int (a + b) = 2 * l" and i: "i < side l"
  shows "(\<Sum>k< side l. ex l i k * complex_of_real (gg (a + b) k * pw a b (int k)))
    = complex_of_real ((real a - real b) / 2) * complex_of_real (gg (a + b) i * pw a b (int i))"
proof -
  let ?n = "a + b"
  let ?W = "\<lambda>k. pw a b k"
  have d: "side l = Suc ?n" using ab l by (simp add: side_def)
  have in': "i \<le> ?n" using i d by simp
  have up: "cc l i * (gg ?n (Suc i) * ?W (int (Suc i))) = (real i + 1) * gg ?n i * ?W (int i + 1)"
  proof (cases "i < ?n")
    case True
    have "cc l i * (gg ?n (Suc i) * ?W (int (Suc i))) = (cc l i * gg ?n (Suc i)) * ?W (int i + 1)"
      by (simp add: add.commute)
    also have "\<dots> = (real (Suc i) * gg ?n i) * ?W (int i + 1)"
      by (simp only: cc_gg(2) [OF ab True])
    finally show ?thesis by (simp add: add.commute)
  next
    case False
    then have "?W (int (Suc i)) = 0" "?W (int i + 1) = 0"
      using in' by (auto intro!: pw_above)
    then show ?thesis by simp
  qed
  have rec: "(real i + 1) * ?W (int i + 1) + (real ?n - real i + 1) * ?W (int i - 1)
      = (real a - real b) * ?W (int i)"
    using pw_recurrence [of "int i" a b] by simp
  have "(case i of 0 \<Rightarrow> 0 | Suc m \<Rightarrow> cc l m * (gg ?n m * ?W (int m))) / 2
      + cc l i * (gg ?n (Suc i) * ?W (int (Suc i))) / 2
      = (real a - real b) / 2 * (gg ?n i * ?W (int i))"
  proof (rule half_sum_combine [OF up _ rec])
    show "(case i of 0 \<Rightarrow> 0 | Suc m \<Rightarrow> cc l m * (gg ?n m * ?W (int m)))
        = (real ?n - real i + 1) * gg ?n i * ?W (int i - 1)"
    proof (cases i)
      case 0
      have "?W (- 1) = 0" by (rule pw_neg) simp
      with 0 show ?thesis by simp
    next
      case (Suc m)
      then have m: "m < ?n" using in' by simp
      have "cc l m * (gg ?n m * ?W (int m)) = (cc l m * gg ?n m) * ?W (int i - 1)"
        using Suc by simp
      also have "\<dots> = (real (?n - m) * gg ?n (Suc m)) * ?W (int i - 1)"
        by (simp only: cc_gg(1) [OF ab m])
      also have "real (?n - m) = real ?n - real i + 1"
        using m Suc by simp
      finally show ?thesis using Suc by simp
    qed
  qed
  then have "complex_of_real ((case i of 0 \<Rightarrow> 0 | Suc m \<Rightarrow> cc l m * (gg ?n m * ?W (int m))) / 2
      + cc l i * (gg ?n (Suc i) * ?W (int (Suc i))) / 2)
      = complex_of_real ((real a - real b) / 2 * (gg ?n i * ?W (int i)))"
    by (simp only:)
  then show ?thesis
    unfolding ex_row [OF l i] by (cases i) (simp_all add: algebra_simps)
qed

lemma ex_sym: "ex l i k = ex l k i"
  by (auto simp: ex_def)

text \<open>
  An eigenvector of \<open>Lx\<close> for a number that is none of \<open>-L, ..., L\<close> would be orthogonal to
  the \<open>2L + 1\<close> eigenvectors above, since \<open>Lx\<close> is symmetric; the array of these
  eigenvectors is invertible, so the vector would be zero.
\<close>

lemma ex_no_other_eigenvalue:
  assumes l: "0 \<le> l"
    and f: "\<forall>i< side l. (\<Sum>k< side l. ex l i k * f k) = lam * f i"
    and lam: "lam \<notin> of_int ` {- l..l}"
    and k: "k < side l"
  shows "f k = 0"
proof -
  define n where "n = nat (2 * l)"
  have n: "int n = 2 * l" and d: "side l = Suc n" using l by (simp_all add: n_def side_def)
  define u where "u j i = complex_of_real (gg n i * pw j (n - j) (int i))" for j i
  define S where "S j = (\<Sum>i< side l. u j i * f i)" for j
  have S0: "S j = 0" if j: "j \<le> n" for j
  proof -
    define mu where "mu = complex_of_int (int j - l)"
    have jn: "int (j + (n - j)) = 2 * l" using j n by simp
    have "(real j - real (n - j)) / 2 = real_of_int (int j - l)"
      using j n by (simp add: field_simps)
    then have "complex_of_real ((real j - real (n - j)) / 2) = mu"
      unfolding mu_def by (metis of_real_of_int_eq)
    then have eig: "(\<Sum>i< side l. ex l k' i * u j i) = mu * u j k'" if "k' < side l" for k'
      using ex_eigenvector [OF l jn that] j by (simp add: u_def)
    have "lam * S j = (\<Sum>i< side l. u j i * (lam * f i))"
      by (simp add: S_def sum_distrib_left mult.left_commute)
    also have "\<dots> = (\<Sum>i< side l. u j i * (\<Sum>k'< side l. ex l i k' * f k'))"
      using f by (intro sum.cong) simp_all
    also have "\<dots> = (\<Sum>i< side l. \<Sum>k'< side l. f k' * (ex l k' i * u j i))"
      by (simp add: sum_distrib_left ex_sym [of l _ _] mult_ac)
    also have "\<dots> = (\<Sum>k'< side l. \<Sum>i< side l. f k' * (ex l k' i * u j i))"
      by (rule sum.swap)
    also have "\<dots> = (\<Sum>k'< side l. f k' * (\<Sum>i< side l. ex l k' i * u j i))"
      by (simp add: sum_distrib_left)
    also have "\<dots> = (\<Sum>k'< side l. f k' * (mu * u j k'))"
      by (intro sum.cong) (simp_all add: eig)
    also have "\<dots> = mu * S j"
      by (simp add: S_def sum_distrib_left mult_ac)
    finally have "(lam - mu) * S j = 0" by (simp add: algebra_simps)
    moreover have "lam \<noteq> mu"
    proof
      assume "lam = mu"
      moreover have "int j - l \<in> {- l..l}" using j n by auto
      ultimately show False using lam unfolding mu_def by blast
    qed
    ultimately show ?thesis by simp
  qed
  have kn: "k \<le> n" using k d by simp
  have "(\<Sum>j\<le>n. complex_of_real (pw k (n - k) (int j)) * S j) = 0"
    by (simp add: S0)
  moreover have "(\<Sum>j\<le>n. complex_of_real (pw k (n - k) (int j)) * S j)
      = (\<Sum>i< side l. complex_of_real (gg n i) * f i * complex_of_real (subst_pm n (\<lambda>j. pw k (n - k) (int j)) (int i)))"
  proof -
    have "(\<Sum>j\<le>n. complex_of_real (pw k (n - k) (int j)) * S j)
        = (\<Sum>j\<le>n. \<Sum>i< side l. complex_of_real (gg n i) * f i *
            complex_of_real (pw k (n - k) (int j) * pw j (n - j) (int i)))"
      by (simp add: S_def u_def sum_distrib_left mult_ac)
    also have "\<dots> = (\<Sum>i< side l. \<Sum>j\<le>n. complex_of_real (gg n i) * f i *
            complex_of_real (pw k (n - k) (int j) * pw j (n - j) (int i)))"
      by (rule sum.swap)
    also have "\<dots> = (\<Sum>i< side l. complex_of_real (gg n i) * f i *
            complex_of_real (subst_pm n (\<lambda>j. pw k (n - k) (int j)) (int i)))"
      by (simp add: subst_pm_def sum_distrib_left)
    finally show ?thesis .
  qed
  moreover have "(\<Sum>i< side l. complex_of_real (gg n i) * f i *
        complex_of_real (subst_pm n (\<lambda>j. pw k (n - k) (int j)) (int i)))
      = (\<Sum>i< side l. if i = k then complex_of_real (gg n k) * f k * 2 ^ n else 0)"
    by (intro sum.cong) (simp_all add: subst_pm_twice [OF kn])
  ultimately have "complex_of_real (gg n k) * f k * 2 ^ n = 0"
    using k by simp
  then show ?thesis using gg_pos [of n k] by simp
qed

lemma eig_fun_x:
  assumes l: "0 \<le> l"
  shows "eig_fun (side l) (ex l) lam \<longleftrightarrow> lam \<in> of_int ` {- l..l}"
proof
  assume "eig_fun (side l) (ex l) lam"
  then obtain f i where i: "i < side l" "f i \<noteq> 0"
    and f: "\<forall>i< side l. (\<Sum>k< side l. ex l i k * f k) = lam * f i"
    by (auto simp: eig_fun_def)
  show "lam \<in> of_int ` {- l..l}"
  proof (rule ccontr)
    assume "lam \<notin> of_int ` {- l..l}"
    then have "f i = 0" by (rule ex_no_other_eigenvalue [OF l f _ i(1)])
    with i(2) show False by simp
  qed
next
  assume "lam \<in> of_int ` {- l..l}"
  then obtain m where m: "- l \<le> m" "m \<le> l" "lam = of_int m" by auto
  define a b where "a = nat (l + m)" and "b = nat (l - m)"
  have ab: "int (a + b) = 2 * l" using m by (simp add: a_def b_def)
  have "(real a - real b) / 2 = real_of_int m"
    using m by (simp add: a_def b_def)
  then have ev: "complex_of_real ((real a - real b) / 2) = lam"
    unfolding m(3) by (metis of_real_of_int_eq)
  let ?f = "\<lambda>k. complex_of_real (gg (a + b) k * pw a b (int k))"
  have "a + b < side l" using ab l by (simp add: side_def)
  moreover have "?f (a + b) \<noteq> 0"
    using gg_pos [of "a + b" "a + b"] pw_top [of a b] by simp
  moreover have "\<forall>i< side l. (\<Sum>k< side l. ex l i k * ?f k) = lam * ?f i"
    using ex_eigenvector [OF l ab] ev by simp
  ultimately show "eig_fun (side l) (ex l) lam"
    unfolding eig_fun_def by (intro exI [of _ ?f]) blast
qed

text \<open>\<open>Ly\<close> is \<open>Lx\<close> conjugated by the diagonal array of the powers of \<open>-i\<close>.\<close>

lemma ey_ex: "ey l i k * (- \<i>) ^ k = (- \<i>) ^ i * ex l i k"
  by (auto simp: ey_def ex_def mult_ac)

lemma ex_ey: "ex l i k * \<i> ^ k = \<i> ^ i * ey l i k"
  by (auto simp: ey_def ex_def mult_ac)

lemma eig_fun_y: "eig_fun d (ey l) lam \<longleftrightarrow> eig_fun d (ex l) lam"
proof
  assume "eig_fun d (ey l) lam"
  then obtain f i where i: "i < d" "f i \<noteq> 0"
    and f: "\<forall>i<d. (\<Sum>k<d. ey l i k * f k) = lam * f i"
    by (auto simp: eig_fun_def)
  let ?g = "\<lambda>k. \<i> ^ k * f k"
  have "(\<Sum>k<d. ex l j k * ?g k) = lam * ?g j" if j: "j < d" for j
  proof -
    have "(\<Sum>k<d. ex l j k * ?g k) = (\<Sum>k<d. \<i> ^ j * (ey l j k * f k))"
      by (intro sum.cong) (simp_all add: mult.assoc [symmetric] ex_ey)
    also have "\<dots> = \<i> ^ j * (\<Sum>k<d. ey l j k * f k)"
      by (simp add: sum_distrib_left)
    finally show ?thesis using f j by simp
  qed
  moreover have "?g i \<noteq> 0" using i(2) by simp
  ultimately show "eig_fun d (ex l) lam"
    unfolding eig_fun_def using i(1) by (intro exI [of _ ?g]) blast
next
  assume "eig_fun d (ex l) lam"
  then obtain f i where i: "i < d" "f i \<noteq> 0"
    and f: "\<forall>i<d. (\<Sum>k<d. ex l i k * f k) = lam * f i"
    by (auto simp: eig_fun_def)
  let ?g = "\<lambda>k. (- \<i>) ^ k * f k"
  have "(\<Sum>k<d. ey l j k * ?g k) = lam * ?g j" if j: "j < d" for j
  proof -
    have "(\<Sum>k<d. ey l j k * ?g k) = (\<Sum>k<d. (- \<i>) ^ j * (ex l j k * f k))"
      by (intro sum.cong) (simp_all add: mult.assoc [symmetric] ey_ex)
    also have "\<dots> = (- \<i>) ^ j * (\<Sum>k<d. ex l j k * f k)"
      by (simp add: sum_distrib_left)
    finally show ?thesis using f j by simp
  qed
  moreover have "?g i \<noteq> 0" using i(2) by simp
  ultimately show "eig_fun d (ey l) lam"
    unfolding eig_fun_def using i(1) by (intro exI [of _ ?g]) blast
qed

lemma generator_spectra:
  assumes l: "0 \<le> l"
  shows "eigenvalues (Lx_matrix l) = of_int ` {- l..l}"
    and "eigenvalues (Ly_matrix l) = of_int ` {- l..l}"
    and "eigenvalues (Lz_matrix l) = of_int ` {- l..l}"
proof -
  have len: "length (Lx_matrix l) = side l" "length (Ly_matrix l) = side l"
      "length (Lz_matrix l) = side l"
    using l by (simp_all add: has_shape_length [where c = "side l"])
  have "is_eigenvalue (Lx_matrix l) lam \<longleftrightarrow> lam \<in> of_int ` {- l..l}" for lam
    using is_eigenvalue_eig_fun [OF len(1), of "ex l" lam] l by (simp add: Lx_ex eig_fun_x)
  then show "eigenvalues (Lx_matrix l) = of_int ` {- l..l}"
    unfolding eigenvalues_def by blast
  have "is_eigenvalue (Ly_matrix l) lam \<longleftrightarrow> lam \<in> of_int ` {- l..l}" for lam
    using is_eigenvalue_eig_fun [OF len(2), of "ey l" lam] l
    by (simp add: Ly_ey eig_fun_y eig_fun_x)
  then show "eigenvalues (Ly_matrix l) = of_int ` {- l..l}"
    unfolding eigenvalues_def by blast
  have "is_eigenvalue (Lz_matrix l) lam \<longleftrightarrow> lam \<in> of_int ` {- l..l}" for lam
    using is_eigenvalue_eig_fun [OF len(3), of "ez l" lam] l by (simp add: Lz_ez eig_fun_z)
  then show "eigenvalues (Lz_matrix l) = of_int ` {- l..l}"
    unfolding eigenvalues_def by blast
qed

text \<open>
  Claim C1. For every \<open>L >= 0\<close> whose construction passes its assertions, the three
  constructed generators are arrays of side \<open>2L + 1\<close>, each equal to its conjugate
  transpose, and the eigenvalues of each are exactly the integers \<open>-L, ..., L\<close>, which
  have imaginary part zero. The arithmetic is that of the reals.
\<close>

theorem generators_hermitian_with_integer_spectrum:
  assumes "0 \<le> l" and "spectra_checked eigvalsh l"
  shows "\<exists>sp. SU_init eigvalsh (PyInt l) = Inr sp
    \<and> has_shape (Lx sp) (nat (2 * l + 1)) (nat (2 * l + 1))
    \<and> has_shape (Ly sp) (nat (2 * l + 1)) (nat (2 * l + 1))
    \<and> has_shape (Lz sp) (nat (2 * l + 1)) (nat (2 * l + 1))
    \<and> mat_adj (Lx sp) = Lx sp \<and> mat_adj (Ly sp) = Ly sp \<and> mat_adj (Lz sp) = Lz sp
    \<and> eigenvalues (Lx sp) = of_int ` {- l..l}
    \<and> eigenvalues (Ly sp) = of_int ` {- l..l}
    \<and> eigenvalues (Lz sp) = of_int ` {- l..l}"
proof -
  have "SU_init eigvalsh (PyInt l) = Inr (space_of l)"
    by (simp add: SU_init_PyInt assms)
  moreover have "has_shape (Lx_matrix l) (nat (2 * l + 1)) (nat (2 * l + 1))"
      "has_shape (Ly_matrix l) (nat (2 * l + 1)) (nat (2 * l + 1))"
      "has_shape (Lz_matrix l) (nat (2 * l + 1)) (nat (2 * l + 1))"
    using assms(1) by (simp_all add: side_def [symmetric])
  ultimately show ?thesis
    using assms(1)
    by (simp add: mat_adj_def Lx_hermitian Ly_hermitian Lz_hermitian generator_spectra)
qed

theorem generators_hermitian_with_integer_spectrum_witness:
  "\<exists>sp. SU_init (\<lambda>M. [- 1, 0, 1]) (PyInt 1) = Inr sp
    \<and> has_shape (Lx sp) 3 3 \<and> has_shape (Ly sp) 3 3 \<and> has_shape (Lz sp) 3 3
    \<and> mat_adj (Lx sp) = Lx sp \<and> mat_adj (Ly sp) = Ly sp \<and> mat_adj (Lz sp) = Lz sp
    \<and> eigenvalues (Lx sp) = {- 1, 0, 1}
    \<and> eigenvalues (Ly sp) = {- 1, 0, 1}
    \<and> eigenvalues (Lz sp) = {- 1, 0, 1}"
proof -
  have s: "complex_of_int ` {- 1..1} = {- 1, 0, 1}"
  proof -
    have "{- 1..1 :: int} = {- 1, 0, 1}" by auto
    then show ?thesis by simp
  qed
  show ?thesis
    using generators_hermitian_with_integer_spectrum [OF _ spectra_checked_example] s
    by simp
qed

end
